theory Spec2Isabelle
  imports Main "HOL-Library.Multiset"
begin

section \<open>Result model\<close>

text \<open>
  The unit-testing engine of the repository exists in two revisions: the older one
  (first implementation file, every result class carries its own total) and the newer
  one (second implementation file, a common base class \<open>ResultObject\<close>). Unless a
  name ends in \<open>_r1\<close> the definitions below follow the newer revision.
\<close>

datatype Result = Success | Fail | Unknown

datatype ControlAction = Procceed | Ignore | Abort | AbortCurrent | Repeat

text \<open>
  \<open>Info\<close>: the declaration site of a suite, test, fixture or assertion. The three raw
  back pointers of the struct (environment, suite, test) are not part of the model;
  suites and tests are identified by their index where the code passes a pointer.
\<close>

record Info =
  m_Name :: string
  m_File :: string
  m_Line :: int

record ResultObject =
  m_TotalResult :: Result

definition ResultObject_ctor :: ResultObject where
  "ResultObject_ctor = \<lparr>m_TotalResult = Success\<rparr>"

text \<open>\<open>ResultObject::AddResult\<close>, on the total alone and on any derived object.\<close>

definition AddResult_total :: "Result \<Rightarrow> Result \<Rightarrow> Result" where
  "AddResult_total tot result =
     (if tot \<noteq> Fail \<and> result \<noteq> Success then result else tot)"

definition ResultObject_AddResult ::
  "Result \<Rightarrow> 'a ResultObject_scheme \<Rightarrow> 'a ResultObject_scheme" where
  "ResultObject_AddResult result obj =
     obj\<lparr>m_TotalResult := AddResult_total (m_TotalResult obj) result\<rparr>"

text \<open>
  The older revision folds inline, with the same text in \<open>TestResult::AddResult\<close> and
  \<open>SuiteResult::AddResult\<close>.
\<close>

definition AddResult_total_r1 :: "Result \<Rightarrow> Result \<Rightarrow> Result" where
  "AddResult_total_r1 tot result =
     (if tot = Success \<or> tot = Unknown
      then (if result = Unknown \<or> result = Fail then result else tot)
      else tot)"

record AssertResult = ResultObject +
  message :: string
  info :: Info

definition AssertResult_ctor :: "Info \<Rightarrow> Result \<Rightarrow> string \<Rightarrow> AssertResult" where
  "AssertResult_ctor i res msg =
     ResultObject_AddResult res \<lparr>m_TotalResult = Success, message = msg, info = i\<rparr>"

text \<open>
  A test is named by the pair (index of its suite, index in the suite's test list).
  The measured duration of a test result is wall-clock time and is left out. The three
  result classes each call their child vector \<open>m_Results\<close>; the fields are told apart
  here as \<open>m_Asserts\<close>, \<open>m_TestResults\<close> and \<open>m_SuiteResults\<close>.
\<close>

type_synonym test_ptr = "nat \<times> nat"

record TestResult = ResultObject +
  m_Test :: test_ptr
  m_Asserts :: "AssertResult list"

definition TestResult_ctor :: "test_ptr \<Rightarrow> TestResult" where
  "TestResult_ctor t = \<lparr>m_TotalResult = Success, m_Test = t, m_Asserts = []\<rparr>"

definition TestResult_AddResult :: "AssertResult \<Rightarrow> TestResult \<Rightarrow> TestResult" where
  "TestResult_AddResult result tr =
     ResultObject_AddResult (m_TotalResult result)
       (tr\<lparr>m_Asserts := m_Asserts tr @ [result]\<rparr>)"

record SuiteResult = ResultObject +
  m_Suite :: nat
  m_TestResults :: "TestResult list"

definition SuiteResult_ctor :: "nat \<Rightarrow> SuiteResult" where
  "SuiteResult_ctor s = \<lparr>m_TotalResult = Success, m_Suite = s, m_TestResults = []\<rparr>"

definition SuiteResult_AddResult :: "TestResult \<Rightarrow> SuiteResult \<Rightarrow> SuiteResult" where
  "SuiteResult_AddResult result sr =
     ResultObject_AddResult (m_TotalResult result)
       (sr\<lparr>m_TestResults := m_TestResults sr @ [result]\<rparr>)"

definition SetTotalResult :: "Result \<Rightarrow> SuiteResult \<Rightarrow> SuiteResult" where
  "SetTotalResult result sr = sr\<lparr>m_TotalResult := result\<rparr>"

record EnvironmentResult = ResultObject +
  m_SuiteResults :: "SuiteResult list"

definition EnvironmentResult_ctor :: EnvironmentResult where
  "EnvironmentResult_ctor = \<lparr>m_TotalResult = Success, m_SuiteResults = []\<rparr>"

definition EnvironmentResult_AddResult ::
  "SuiteResult \<Rightarrow> EnvironmentResult \<Rightarrow> EnvironmentResult" where
  "EnvironmentResult_AddResult result er =
     ResultObject_AddResult (m_TotalResult result)
       (er\<lparr>m_SuiteResults := m_SuiteResults er @ [result]\<rparr>)"

text \<open>
  The severity order of the specification, \<open>Fail > Unknown > Success\<close>, and the
  maximum of a sequence under it. The empty sequence has the least outcome, which is
  also the total every constructor starts from.
\<close>

fun severity :: "Result \<Rightarrow> nat" where
  "severity Success = 0"
| "severity Unknown = 1"
| "severity Fail = 2"

definition worse :: "Result \<Rightarrow> Result \<Rightarrow> Result" where
  "worse a b = (if severity a < severity b then b else a)"

definition max_severity :: "Result list \<Rightarrow> Result" where
  "max_severity rs = foldr worse rs Success"

definition TestResult_AddResult_r1 :: "AssertResult \<Rightarrow> TestResult \<Rightarrow> TestResult" where
  "TestResult_AddResult_r1 result tr =
     (let tr' = tr\<lparr>m_Asserts := m_Asserts tr @ [result]\<rparr>
      in tr'\<lparr>m_TotalResult := AddResult_total_r1 (m_TotalResult tr') (m_TotalResult result)\<rparr>)"

definition SuiteResult_AddResult_r1 :: "TestResult \<Rightarrow> SuiteResult \<Rightarrow> SuiteResult" where
  "SuiteResult_AddResult_r1 result sr =
     (let sr' = sr\<lparr>m_TestResults := m_TestResults sr @ [result]\<rparr>;
          r = m_TotalResult result
      in sr'\<lparr>m_TotalResult := AddResult_total_r1 (m_TotalResult sr') r\<rparr>)"

section \<open>Entity model\<close>

text \<open>
  Everything the engine calls but does not own (test bodies, fixtures, filters, the
  control policy) acts on a world \<open>'w\<close> that the model threads through every call.

  A test body reports assertions through its context and may leave by throwing. It is
  given by the calls to \<open>TestContext::AddResult\<close> it makes (in order), whether it
  throws afterwards, and the world it leaves. A fixture is an optional function
  pointer; calling it tells whether it threw.
\<close>

type_synonym 'w TestFunction = "'w \<Rightarrow> (Info \<times> bool \<times> string) list \<times> bool \<times> 'w"

record 'w Test =
  m_Func :: "'w TestFunction"
  m_TestInfo :: Info

record 'w SuiteFunction =
  m_FixFunc :: "('w \<Rightarrow> bool \<times> 'w) option"
  m_FixInfo :: Info

definition SuiteFunction_ctor :: "'w SuiteFunction" where
  "SuiteFunction_ctor = \<lparr>m_FixFunc = None, m_FixInfo = \<lparr>m_Name = [], m_File = [], m_Line = 0\<rparr>\<rparr>"

record 'w Suite =
  m_Init :: "'w SuiteFunction"
  m_Enter :: "'w SuiteFunction"
  m_Leave :: "'w SuiteFunction"
  m_Exit :: "'w SuiteFunction"
  m_Info :: Info
  m_Dependencies :: "string list"
  m_Tests :: "'w Test list"
  m_Tags :: "string list"

text \<open>
  The control policy. A suite or test reference is passed as an index. \<open>OnAssert\<close>
  receives the assertion result by non-const reference, so it returns it.
\<close>

record 'w ControlCallback =
  OnBegin :: "'w \<Rightarrow> 'w"
  OnSuiteBegin :: "nat \<Rightarrow> 'w \<Rightarrow> 'w"
  OnTestBegin :: "test_ptr \<Rightarrow> 'w \<Rightarrow> 'w"
  OnAssert :: "AssertResult \<Rightarrow> 'w \<Rightarrow> AssertResult \<times> 'w"
  OnTestEnd :: "TestResult \<Rightarrow> 'w \<Rightarrow> bool \<times> 'w"
  OnSuiteEnd :: "SuiteResult \<Rightarrow> 'w \<Rightarrow> 'w"
  OnEnd :: "EnvironmentResult \<Rightarrow> 'w \<Rightarrow> 'w"
  OnException :: "Info \<Rightarrow> 'w \<Rightarrow> ControlAction \<times> 'w"
  OnDependencyFail :: "nat \<Rightarrow> nat \<Rightarrow> SuiteResult \<Rightarrow> 'w \<Rightarrow> ControlAction \<times> 'w"
  OnUnknownDependency :: "nat \<Rightarrow> string \<Rightarrow> 'w \<Rightarrow> ControlAction \<times> 'w"
  OnUnsolvableDependencies :: "nat list \<Rightarrow> 'w \<Rightarrow> ControlAction \<times> 'w"

text \<open>A filter, as far as the engine uses it: \<open>IsOK\<close> on a suite.\<close>

type_synonym 'w Filter = "nat \<Rightarrow> 'w \<Rightarrow> bool \<times> 'w"

record 'w Environment =
  m_SuiteMap :: "string \<rightharpoonup> nat"
  m_Suites :: "'w Suite list"
  m_Callback :: "'w ControlCallback option"
  m_Filter :: "'w Filter list"

definition Environment_ctor :: "'w Environment" where
  "Environment_ctor =
     \<lparr>m_SuiteMap = Map.empty, m_Suites = [], m_Callback = None, m_Filter = []\<rparr>"

text \<open>\<open>std::map::emplace\<close>: inserts unless the key is present.\<close>

definition emplace :: "('k \<rightharpoonup> 'v) \<Rightarrow> 'k \<Rightarrow> 'v \<Rightarrow> ('k \<rightharpoonup> 'v)" where
  "emplace m k v = (case m k of None \<Rightarrow> m(k \<mapsto> v) | Some _ \<Rightarrow> m)"

definition RegisterSuite :: "'w Suite \<Rightarrow> 'w Environment \<Rightarrow> 'w Environment" where
  "RegisterSuite suite env =
     env\<lparr>m_SuiteMap := emplace (m_SuiteMap env) (m_Name (m_Info suite)) (length (m_Suites env)),
         m_Suites := m_Suites env @ [suite]\<rparr>"

text \<open>The environment after the suites \<open>ss\<close> have been constructed in this order.\<close>

definition register_all :: "'w Suite list \<Rightarrow> 'w Environment" where
  "register_all ss = fold RegisterSuite ss Environment_ctor"

definition SetControl :: "'w ControlCallback option \<Rightarrow> 'w Environment \<Rightarrow> 'w Environment" where
  "SetControl control env = env\<lparr>m_Callback := control\<rparr>"

definition AddFilter :: "'w Filter \<Rightarrow> 'w Environment \<Rightarrow> 'w Environment" where
  "AddFilter f env = env\<lparr>m_Filter := m_Filter env @ [f]\<rparr>"

text \<open>Concrete data for the examples.\<close>

definition no_info :: Info where
  "no_info = \<lparr>m_Name = [], m_File = [], m_Line = 0\<rparr>"

definition plain_suite :: "string \<Rightarrow> string list \<Rightarrow> unit Suite" where
  "plain_suite n deps =
     \<lparr>m_Init = SuiteFunction_ctor, m_Enter = SuiteFunction_ctor, m_Leave = SuiteFunction_ctor,
      m_Exit = SuiteFunction_ctor, m_Info = \<lparr>m_Name = n, m_File = [], m_Line = 0\<rparr>,
      m_Dependencies = deps, m_Tests = [], m_Tags = []\<rparr>"

section \<open>Calls into external code\<close>

text \<open>
  The world the engine runs in: the state \<open>user\<close> that external code reads and writes,
  and a log of every call the engine makes into external code, in call order. The log
  is an observer only: no definition below reads it.
\<close>

datatype event =
    EvIsOK nat bool
  | EvUnknownDependency nat string ControlAction
  | EvUnsolvableDependencies "nat list"
  | EvBegin
  | EvEnd
  | EvSuiteBegin nat
  | EvSuiteEnd nat
  | EvDependencyFail nat nat ControlAction
  | EvTestBegin test_ptr
  | EvTestEnd TestResult bool
  | EvFixture Info
  | EvBody test_ptr TestResult
  | EvAssert AssertResult
  | EvException Info ControlAction

record 'w world =
  user :: 'w
  trace :: "event list"

definition emit :: "event \<Rightarrow> 'w \<Rightarrow> 'w world \<Rightarrow> 'w world" where
  "emit e u ws = \<lparr>user = u, trace = trace ws @ [e]\<rparr>"

definition call_IsOK :: "'w Filter \<Rightarrow> nat \<Rightarrow> 'w world \<Rightarrow> bool \<times> 'w world" where
  "call_IsOK f s ws = (case f s (user ws) of (ok, u) \<Rightarrow> (ok, emit (EvIsOK s ok) u ws))"

definition call_OnUnknownDependency ::
  "'w ControlCallback \<Rightarrow> nat \<Rightarrow> string \<Rightarrow> 'w world \<Rightarrow> ControlAction \<times> 'w world" where
  "call_OnUnknownDependency ctl s d ws =
     (case OnUnknownDependency ctl s d (user ws) of
        (a, u) \<Rightarrow> (a, emit (EvUnknownDependency s d a) u ws))"

definition call_OnUnsolvableDependencies ::
  "'w ControlCallback \<Rightarrow> nat list \<Rightarrow> 'w world \<Rightarrow> ControlAction \<times> 'w world" where
  "call_OnUnsolvableDependencies ctl unsolvable ws =
     (case OnUnsolvableDependencies ctl unsolvable (user ws) of
        (a, u) \<Rightarrow> (a, emit (EvUnsolvableDependencies unsolvable) u ws))"

definition call_OnBegin :: "'w ControlCallback \<Rightarrow> 'w world \<Rightarrow> 'w world" where
  "call_OnBegin ctl ws = emit EvBegin (OnBegin ctl (user ws)) ws"

definition call_OnEnd :: "'w ControlCallback \<Rightarrow> EnvironmentResult \<Rightarrow> 'w world \<Rightarrow> 'w world" where
  "call_OnEnd ctl r ws = emit EvEnd (OnEnd ctl r (user ws)) ws"

definition call_OnSuiteBegin :: "'w ControlCallback \<Rightarrow> nat \<Rightarrow> 'w world \<Rightarrow> 'w world" where
  "call_OnSuiteBegin ctl s ws = emit (EvSuiteBegin s) (OnSuiteBegin ctl s (user ws)) ws"

definition call_OnSuiteEnd :: "'w ControlCallback \<Rightarrow> SuiteResult \<Rightarrow> 'w world \<Rightarrow> 'w world" where
  "call_OnSuiteEnd ctl r ws = emit (EvSuiteEnd (m_Suite r)) (OnSuiteEnd ctl r (user ws)) ws"

definition call_OnDependencyFail ::
  "'w ControlCallback \<Rightarrow> nat \<Rightarrow> nat \<Rightarrow> SuiteResult \<Rightarrow> 'w world \<Rightarrow> ControlAction \<times> 'w world" where
  "call_OnDependencyFail ctl running failed r ws =
     (case OnDependencyFail ctl running failed r (user ws) of
        (a, u) \<Rightarrow> (a, emit (EvDependencyFail running failed a) u ws))"

definition call_OnTestBegin :: "'w ControlCallback \<Rightarrow> test_ptr \<Rightarrow> 'w world \<Rightarrow> 'w world" where
  "call_OnTestBegin ctl t ws = emit (EvTestBegin t) (OnTestBegin ctl t (user ws)) ws"

definition call_OnTestEnd ::
  "'w ControlCallback \<Rightarrow> TestResult \<Rightarrow> 'w world \<Rightarrow> bool \<times> 'w world" where
  "call_OnTestEnd ctl r ws =
     (case OnTestEnd ctl r (user ws) of (again, u) \<Rightarrow> (again, emit (EvTestEnd r again) u ws))"

definition call_OnAssert ::
  "'w ControlCallback \<Rightarrow> AssertResult \<Rightarrow> 'w world \<Rightarrow> AssertResult \<times> 'w world" where
  "call_OnAssert ctl a ws =
     (case OnAssert ctl a (user ws) of (a', u) \<Rightarrow> (a', emit (EvAssert a') u ws))"

definition call_OnException ::
  "'w ControlCallback \<Rightarrow> Info \<Rightarrow> 'w world \<Rightarrow> ControlAction \<times> 'w world" where
  "call_OnException ctl i ws =
     (case OnException ctl i (user ws) of (a, u) \<Rightarrow> (a, emit (EvException i a) u ws))"

text \<open>
  \<open>ConsoleCallback\<close>, the fallback policy of \<open>Environment::Run\<close>. Its printing to
  standard output is outside the world; its decisions are the constants of the code.
\<close>

definition ConsoleCallback :: "'w ControlCallback" where
  "ConsoleCallback =
     \<lparr>OnBegin = (\<lambda>u. u),
      OnSuiteBegin = (\<lambda>s u. u),
      OnTestBegin = (\<lambda>t u. u),
      OnAssert = (\<lambda>a u. (a, u)),
      OnTestEnd = (\<lambda>r u. (False, u)),
      OnSuiteEnd = (\<lambda>r u. u),
      OnEnd = (\<lambda>r u. u),
      OnException = (\<lambda>i u. (AbortCurrent, u)),
      OnDependencyFail = (\<lambda>running failed r u. (AbortCurrent, u)),
      OnUnknownDependency = (\<lambda>s d u. (AbortCurrent, u)),
      OnUnsolvableDependencies = (\<lambda>unsolvable u. (Abort, u))\<rparr>"

section \<open>Dependency resolver\<close>

text \<open>
  What C++ leaves undefined is a value of the model: reading through the end iterator
  of the name map, and indexing a vector out of range.
\<close>

datatype fault = EndIteratorDeref | IndexOutOfRange

text \<open>
  The three vectors \<open>TopoVisit\<close> works on (the order built so far, the pair of marks
  per suite: \<open>first\<close> is the permanent mark and \<open>second\<close> the on-stack mark, and the
  unsolvable list), with the world. A \<open>Suite*\<close> is the index of the suite in
  \<open>m_Suites\<close>.
\<close>

record 'w topo =
  result :: "nat list"
  mark :: "(bool \<times> bool) list"
  unsolvable :: "nat list"
  world :: "'w world"

text \<open>
  \<open>Environment::TopoVisit\<close>. The recursion is bounded by a fuel that counts the depth
  of the call stack (\<open>None\<close>: fuel exhausted); \<open>SolveDependencies\<close> provides one more
  than the number of suites, which is shown below to be enough. \<open>TopoVisit_loop\<close> is the
  \<open>for\<close> loop over the dependencies still to be looked at; it yields a non-zero code
  when the function returns from inside the loop.

  After an unknown name with decision \<open>Ignore\<close> the code falls out of the \<open>if\<close> and
  evaluates \<open>dep->second\<close> with \<open>dep == m_SuiteMap.end()\<close>.
\<close>

fun TopoVisit ::
    "nat \<Rightarrow> 'w Environment \<Rightarrow> 'w ControlCallback \<Rightarrow> nat \<Rightarrow> 'w topo \<Rightarrow> (fault + int \<times> 'w topo) option"
  and TopoVisit_loop ::
    "nat \<Rightarrow> 'w Environment \<Rightarrow> 'w ControlCallback \<Rightarrow> nat \<Rightarrow> string list \<Rightarrow> 'w topo
      \<Rightarrow> (fault + int \<times> 'w topo) option"
  where
  "TopoVisit 0 env ctl cur st = None"
| "TopoVisit (Suc fuel) env ctl cur st =
     (if \<not> cur < length (mark st) then Some (Inl IndexOutOfRange)
      else if snd (mark st ! cur) then Some (Inr (1, st))
      else if fst (mark st ! cur) then Some (Inr (0, st))
      else if \<not> cur < length (m_Suites env) then Some (Inl IndexOutOfRange)
      else
        (case TopoVisit_loop fuel env ctl cur (m_Dependencies (m_Suites env ! cur))
                (st\<lparr>mark := (mark st)[cur := (fst (mark st ! cur), True)]\<rparr>) of
           None \<Rightarrow> None
         | Some (Inl e) \<Rightarrow> Some (Inl e)
         | Some (Inr (visitResult, st')) \<Rightarrow>
             if visitResult \<noteq> 0 then Some (Inr (visitResult, st'))
             else if \<not> cur < length (mark st') then Some (Inl IndexOutOfRange)
             else Some (Inr (0, st'\<lparr>mark := (mark st')[cur := (True, False)],
                                     result := result st' @ [cur]\<rparr>))))"
| "TopoVisit_loop fuel env ctl cur [] st = Some (Inr (0, st))"
| "TopoVisit_loop fuel env ctl cur (depName # deps) st =
     (if \<not> cur < length (mark st) then Some (Inl IndexOutOfRange)
      else if fst (mark st ! cur) then TopoVisit_loop fuel env ctl cur deps st
      else
        (case m_SuiteMap env depName of
           None \<Rightarrow>
             (case call_OnUnknownDependency ctl cur depName (world st) of
                (action, ws) \<Rightarrow>
                  if action = Ignore then Some (Inl EndIteratorDeref)
                  else Some (Inr (2, st\<lparr>world := ws\<rparr>)))
         | Some d \<Rightarrow>
             (case TopoVisit fuel env ctl d st of
                None \<Rightarrow> None
              | Some (Inl e) \<Rightarrow> Some (Inl e)
              | Some (Inr (visitResult, st')) \<Rightarrow>
                  if visitResult \<noteq> 0 then
                    (if visitResult = 1 then
                       (if \<not> d < length (m_Suites env) then Some (Inl IndexOutOfRange)
                        else Some (Inr (visitResult, st'\<lparr>unsolvable := unsolvable st' @ [d]\<rparr>)))
                     else Some (Inr (visitResult, st')))
                  else TopoVisit_loop fuel env ctl cur deps st')))"

text \<open>\<open>Environment::AllowSuite\<close>: the first filter that says no ends the loop.\<close>

fun AllowSuite_loop :: "'w Filter list \<Rightarrow> nat \<Rightarrow> 'w world \<Rightarrow> bool \<times> 'w world" where
  "AllowSuite_loop [] s ws = (True, ws)"
| "AllowSuite_loop (f # fs) s ws =
     (case call_IsOK f s ws of
        (ok, ws') \<Rightarrow> if \<not> ok then (False, ws') else AllowSuite_loop fs s ws')"

definition AllowSuite :: "'w Environment \<Rightarrow> nat \<Rightarrow> 'w world \<Rightarrow> bool \<times> 'w world" where
  "AllowSuite env s ws = AllowSuite_loop (m_Filter env) s ws"

text \<open>
  \<open>Environment::SolveDependencies\<close>: the loop over the suite indices, then the
  function. The out parameter \<open>result\<close> starts empty, as at its only call in \<open>Run\<close>.
  The function yields the success flag, the order and the world.
\<close>

fun SolveDependencies_loop ::
    "'w Environment \<Rightarrow> 'w ControlCallback \<Rightarrow> nat list \<Rightarrow> 'w topo \<Rightarrow> (fault + bool \<times> 'w topo) option"
  where
  "SolveDependencies_loop env ctl [] st = Some (Inr (True, st))"
| "SolveDependencies_loop env ctl (i # is) st =
     (if \<not> i < length (mark st) then Some (Inl IndexOutOfRange)
      else if fst (mark st ! i) then SolveDependencies_loop env ctl is st
      else
        (case AllowSuite env i (world st) of
           (ok, ws) \<Rightarrow>
             if \<not> ok then SolveDependencies_loop env ctl is (st\<lparr>world := ws\<rparr>)
             else
               (case TopoVisit (Suc (length (m_Suites env))) env ctl i (st\<lparr>world := ws\<rparr>) of
                  None \<Rightarrow> None
                | Some (Inl e) \<Rightarrow> Some (Inl e)
                | Some (Inr (visitResult, st')) \<Rightarrow>
                    if visitResult = 0 then SolveDependencies_loop env ctl is st'
                    else Some (Inr (False, st')))))"

definition SolveDependencies ::
    "'w Environment \<Rightarrow> 'w ControlCallback \<Rightarrow> 'w world
      \<Rightarrow> (fault + bool \<times> nat list \<times> 'w world) option" where
  "SolveDependencies env ctl ws =
     (case SolveDependencies_loop env ctl [0..<length (m_Suites env)]
             \<lparr>result = [], mark = replicate (length (m_Suites env)) (False, False),
              unsolvable = [], world = ws\<rparr> of
        None \<Rightarrow> None
      | Some (Inl e) \<Rightarrow> Some (Inl e)
      | Some (Inr (succeded, st)) \<Rightarrow>
          if \<not> succeded then
            Some (Inr (False, [],
              (if unsolvable st \<noteq> []
               then snd (call_OnUnsolvableDependencies ctl (unsolvable st) (world st))
               else world st)))
          else Some (Inr (True, result st, world st)))"


text \<open>Index of the first suite of a given name (used to state what the name map holds).\<close>

fun find_index_name :: "string \<Rightarrow> 'w Suite list \<Rightarrow> nat option" where
  "find_index_name n [] = None"
| "find_index_name n (s # ss) =
     (if m_Name (m_Info s) = n then Some 0
      else (case find_index_name n ss of None \<Rightarrow> None | Some k \<Rightarrow> Some (Suc k)))"

section \<open>Execution scheduler\<close>

text \<open>
  Where the code names a variable \<open>result\<close> the definitions of this section write
  \<open>res\<close>.
\<close>

text \<open>
  \<open>TestContext::AddResult\<close>: builds the assertion result, shows it to the policy and
  appends it to the result of the running test.
\<close>

definition TestContext_AddResult ::
  "'w ControlCallback \<Rightarrow> Info \<times> bool \<times> string \<Rightarrow> TestResult \<times> 'w world \<Rightarrow> TestResult \<times> 'w world"
  where
  "TestContext_AddResult ctl call s =
     (case call of (i, res, msg) \<Rightarrow>
        (case s of (m_Results, ws) \<Rightarrow>
           (case call_OnAssert ctl (AssertResult_ctor i (if res then Success else Fail) msg) ws of
              (assertResult, ws') \<Rightarrow> (TestResult_AddResult assertResult m_Results, ws'))))"

text \<open>
  \<open>Test::Run\<close>. \<open>Test_body\<close> is the \<open>try\<close> block: the body runs against the
  result it is handed (the log records that result as it is when the body starts),
  its assertions go through the context, and it ends normally or by throwing.
  \<open>Test_Run\<close> adds the \<open>catch\<close> block, where the policy decides.
\<close>

definition Test_body ::
  "'w ControlCallback \<Rightarrow> test_ptr \<Rightarrow> 'w Test \<Rightarrow> TestResult \<Rightarrow> 'w world \<Rightarrow> bool \<times> TestResult \<times> 'w world"
  where
  "Test_body ctl tp t res ws =
     (case m_Func t (user ws) of
        (calls, threw, u) \<Rightarrow>
          (case fold (TestContext_AddResult ctl) calls (res, emit (EvBody tp res) u ws) of
             (res1, ws1) \<Rightarrow> (threw, res1, ws1)))"

definition Test_Run ::
  "'w ControlCallback \<Rightarrow> test_ptr \<Rightarrow> 'w Test \<Rightarrow> TestResult \<Rightarrow> 'w world \<Rightarrow> bool \<times> TestResult \<times> 'w world"
  where
  "Test_Run ctl tp t res ws =
     (case Test_body ctl tp t res ws of
        (threw, res1, ws1) \<Rightarrow>
          if \<not> threw then (True, res1, ws1)
          else
            (case call_OnException ctl (m_TestInfo t) ws1 of
               (action, ws2) \<Rightarrow>
                 if action = Abort then (False, res1, ws2)
                 else if action = AbortCurrent then (True, res1, ws2)
                 else if action = Procceed then
                   (True,
                    TestResult_AddResult
                      (AssertResult_ctor (m_TestInfo t) Fail ''Unknown Exception was thrown.'')
                      res1,
                    ws2)
                 else (True, res1, ws2)))"

text \<open>
  \<open>Suite::ExecFunction\<close>. The C++ function returns a flag and writes the reference
  parameter \<open>procceed\<close> only when the flag is false. The model yields \<open>None\<close> for
  "returned true, \<open>procceed\<close> untouched" and \<open>Some p\<close> for "returned false after
  \<open>procceed = p\<close>". A null function pointer is not called.
\<close>

definition ExecFunction ::
  "'w ControlCallback \<Rightarrow> 'w SuiteFunction \<Rightarrow> 'w world \<Rightarrow> bool option \<times> 'w world" where
  "ExecFunction ctl func ws =
     (case m_FixFunc func of
        None \<Rightarrow> (None, ws)
      | Some f \<Rightarrow>
          (case f (user ws) of
             (threw, u) \<Rightarrow>
               if \<not> threw then (None, emit (EvFixture (m_FixInfo func)) u ws)
               else
                 (case call_OnException ctl (m_FixInfo func)
                         (emit (EvFixture (m_FixInfo func)) u ws) of
                    (action, ws') \<Rightarrow>
                      if action = Ignore \<or> action = Procceed then (None, ws')
                      else if action = AbortCurrent then (Some True, ws')
                      else (Some False, ws'))))"

text \<open>
  \<open>Suite::Run\<close>, inside out. \<open>Suite_attempt\<close> is one pass through the body of the
  \<open>do\<close> loop: \<open>Inl p\<close> when \<open>Suite::Run\<close> returns \<open>p\<close> from inside it, \<open>Inr r\<close> when
  the pass reaches the loop condition with test result \<open>r\<close>. \<open>Suite_do_while\<close> is the
  \<open>do\<close> loop; the policy may ask for a repetition for ever, so it is a partial
  function (\<open>None\<close>: the loop does not end). \<open>Suite_tests\<close> is the \<open>for\<close> loop over
  the tests from index \<open>k\<close> on; it yields \<open>Some p\<close> in its first component when
  \<open>Suite::Run\<close> returns \<open>p\<close> from inside it.
\<close>

definition Suite_attempt ::
  "'w ControlCallback \<Rightarrow> 'w Suite \<Rightarrow> test_ptr \<Rightarrow> 'w Test \<Rightarrow> 'w world
    \<Rightarrow> (bool + TestResult) \<times> 'w world" where
  "Suite_attempt ctl suite tp t ws =
     (case ExecFunction ctl (m_Enter suite) ws of
        (Some procceed, ws1) \<Rightarrow> (Inl procceed, ws1)
      | (None, ws1) \<Rightarrow>
          (case Test_Run ctl tp t (TestResult_ctor tp) ws1 of
             (procceed, testResult, ws2) \<Rightarrow>
               if \<not> procceed then (Inl procceed, ws2)
               else
                 (case ExecFunction ctl (m_Leave suite) ws2 of
                    (Some procceed', ws3) \<Rightarrow> (Inl procceed', ws3)
                  | (None, ws3) \<Rightarrow> (Inr testResult, ws3))))"

partial_function (option) Suite_do_while ::
  "'w ControlCallback \<Rightarrow> 'w Suite \<Rightarrow> test_ptr \<Rightarrow> 'w Test \<Rightarrow> 'w world
    \<Rightarrow> ((bool + TestResult) \<times> 'w world) option" where
  "Suite_do_while ctl suite tp t ws =
     (case Suite_attempt ctl suite tp t ws of
        (Inl procceed, ws1) \<Rightarrow> Some (Inl procceed, ws1)
      | (Inr testResult, ws1) \<Rightarrow>
          (case call_OnTestEnd ctl testResult ws1 of
             (again, ws2) \<Rightarrow>
               if again then Suite_do_while ctl suite tp t ws2
               else Some (Inr testResult, ws2)))"

declare Suite_do_while.simps [code]

fun Suite_tests ::
  "'w ControlCallback \<Rightarrow> 'w Suite \<Rightarrow> nat \<Rightarrow> nat \<Rightarrow> 'w Test list \<Rightarrow> SuiteResult \<Rightarrow> 'w world
    \<Rightarrow> (bool option \<times> SuiteResult \<times> 'w world) option" where
  "Suite_tests ctl suite sid k [] res ws = Some (None, res, ws)"
| "Suite_tests ctl suite sid k (t # ts) res ws =
     (case Suite_do_while ctl suite (sid, k) t (call_OnTestBegin ctl (sid, k) ws) of
        None \<Rightarrow> None
      | Some (Inl procceed, ws1) \<Rightarrow> Some (Some procceed, res, ws1)
      | Some (Inr testResult, ws1) \<Rightarrow>
          Suite_tests ctl suite sid (Suc k) ts (SuiteResult_AddResult testResult res) ws1)"

definition Suite_Run ::
  "'w ControlCallback \<Rightarrow> nat \<Rightarrow> 'w Suite \<Rightarrow> SuiteResult \<Rightarrow> 'w world
    \<Rightarrow> (bool \<times> SuiteResult \<times> 'w world) option" where
  "Suite_Run ctl sid suite res ws =
     (case ExecFunction ctl (m_Init suite) ws of
        (Some procceed, ws1) \<Rightarrow> Some (procceed, res, ws1)
      | (None, ws1) \<Rightarrow>
          (case Suite_tests ctl suite sid 0 (m_Tests suite) res ws1 of
             None \<Rightarrow> None
           | Some (Some procceed, result1, ws2) \<Rightarrow> Some (procceed, result1, ws2)
           | Some (None, result1, ws2) \<Rightarrow>
               (case ExecFunction ctl (m_Exit suite) ws2 of
                  (Some procceed, ws3) \<Rightarrow> Some (procceed, result1, ws3)
                | (None, ws3) \<Rightarrow> Some (True, result1, ws3))))"

text \<open>\<open>std::map::operator[]\<close>: a missing key is inserted with value 0.\<close>

definition map_index :: "('k \<rightharpoonup> nat) \<Rightarrow> 'k \<Rightarrow> nat \<times> ('k \<rightharpoonup> nat)" where
  "map_index m k = (case m k of None \<Rightarrow> (0, m(k \<mapsto> 0)) | Some v \<Rightarrow> (v, m))"

text \<open>
  \<open>Environment::CheckDependencies\<close>, the loop over the dependency names of suite \<open>s\<close>.
  It reads the name map with \<open>operator[]\<close>, so it yields the map as well. The flag and
  the reference parameter \<open>Procceed\<close> are encoded as for \<open>ExecFunction\<close>.
\<close>

fun CheckDependencies_loop ::
  "'w ControlCallback \<Rightarrow> nat \<Rightarrow> string list \<Rightarrow> EnvironmentResult \<Rightarrow> nat list
    \<Rightarrow> (string \<rightharpoonup> nat) \<Rightarrow> 'w world \<Rightarrow> fault + bool option \<times> (string \<rightharpoonup> nat) \<times> 'w world"
  where
  "CheckDependencies_loop ctl s [] res resultConnector m ws = Inr (None, m, ws)"
| "CheckDependencies_loop ctl s (dep # deps) res resultConnector m ws =
     (case map_index m dep of
        (suiteID, m1) \<Rightarrow>
          if \<not> suiteID < length resultConnector then Inl IndexOutOfRange
          else if \<not> resultConnector ! suiteID < length (m_SuiteResults res)
          then Inl IndexOutOfRange
          else
            (let suiteRes = m_SuiteResults res ! (resultConnector ! suiteID) in
             if m_TotalResult suiteRes \<noteq> Success then
               (case call_OnDependencyFail ctl s (m_Suite suiteRes) suiteRes ws of
                  (action, ws1) \<Rightarrow>
                    if action = Ignore then
                      CheckDependencies_loop ctl s deps res resultConnector m1 ws1
                    else if action = AbortCurrent then Inr (Some True, m1, ws1)
                    else Inr (Some False, m1, ws1))
             else CheckDependencies_loop ctl s deps res resultConnector m1 ws))"

text \<open>
  \<open>Environment::RunSuites\<close>: the variables that live across the loop, one pass
  through the loop body for suite \<open>s\<close> (yielding \<open>procceed\<close>), and the loop.
\<close>

record 'w run_state =
  r_map :: "string \<rightharpoonup> nat"
  r_result :: EnvironmentResult
  r_connector :: "nat list"
  r_world :: "'w world"

definition RunSuites_step ::
  "'w Environment \<Rightarrow> 'w ControlCallback \<Rightarrow> nat \<Rightarrow> 'w run_state
    \<Rightarrow> (fault + bool \<times> 'w run_state) option" where
  "RunSuites_step env ctl s st =
     (if \<not> s < length (m_Suites env) then Some (Inl IndexOutOfRange)
      else
        (case CheckDependencies_loop ctl s (m_Dependencies (m_Suites env ! s)) (r_result st)
                (r_connector st) (r_map st) (call_OnSuiteBegin ctl s (r_world st)) of
           Inl e \<Rightarrow> Some (Inl e)
         | Inr (chk, m1, ws1) \<Rightarrow>
             (case (case chk of
                      None \<Rightarrow>
                        (case Suite_Run ctl s (m_Suites env ! s) (SuiteResult_ctor s) ws1 of
                           None \<Rightarrow> None
                         | Some (ok, suiteResult, ws2) \<Rightarrow>
                             Some (if \<not> ok then False else True, suiteResult, ws2))
                    | Some procceed \<Rightarrow>
                        Some (procceed, SetTotalResult Unknown (SuiteResult_ctor s), ws1)) of
                None \<Rightarrow> None
              | Some (procceed, suiteResult, ws2) \<Rightarrow>
                  (case map_index m1 (m_Name (m_Info (m_Suites env ! s))) of
                     (suiteID, m2) \<Rightarrow>
                       if \<not> suiteID < length (r_connector st) then Some (Inl IndexOutOfRange)
                       else
                         Some (Inr (procceed,
                           \<lparr>r_map = m2,
                            r_result = EnvironmentResult_AddResult suiteResult (r_result st),
                            r_connector = (r_connector st)
                              [suiteID := length (m_SuiteResults (r_result st))],
                            r_world = call_OnSuiteEnd ctl suiteResult ws2\<rparr>))))))"

fun RunSuites_loop ::
  "'w Environment \<Rightarrow> 'w ControlCallback \<Rightarrow> nat list \<Rightarrow> 'w run_state
    \<Rightarrow> (fault + bool \<times> 'w run_state) option" where
  "RunSuites_loop env ctl [] st = Some (Inr (True, st))"
| "RunSuites_loop env ctl (s # suites) st =
     (case RunSuites_step env ctl s st of
        None \<Rightarrow> None
      | Some (Inl e) \<Rightarrow> Some (Inl e)
      | Some (Inr (procceed, st')) \<Rightarrow>
          if \<not> procceed then Some (Inr (False, st')) else RunSuites_loop env ctl suites st')"

definition run_init :: "'w Environment \<Rightarrow> EnvironmentResult \<Rightarrow> 'w world \<Rightarrow> 'w run_state" where
  "run_init env res ws =
     \<lparr>r_map = m_SuiteMap env, r_result = res,
      r_connector = replicate (length (m_Suites env)) 0, r_world = ws\<rparr>"

definition RunSuites ::
  "'w Environment \<Rightarrow> 'w ControlCallback \<Rightarrow> nat list \<Rightarrow> EnvironmentResult \<Rightarrow> 'w world
    \<Rightarrow> (fault + bool \<times> 'w run_state) option" where
  "RunSuites env ctl suites res ws = RunSuites_loop env ctl suites (run_init env res ws)"

text \<open>
  \<open>Environment::Run\<close>. The function is \<open>void\<close> and hands its result to \<open>OnEnd\<close>
  only; the model also yields it, with the order that was run.
\<close>

definition GetControl :: "'w Environment \<Rightarrow> 'w ControlCallback" where
  "GetControl env = (case m_Callback env of None \<Rightarrow> ConsoleCallback | Some c \<Rightarrow> c)"

definition Run ::
  "'w Environment \<Rightarrow> 'w world \<Rightarrow> (fault + EnvironmentResult \<times> nat list \<times> 'w world) option" where
  "Run env ws =
     (case SolveDependencies env (GetControl env) ws of
        None \<Rightarrow> None
      | Some (Inl e) \<Rightarrow> Some (Inl e)
      | Some (Inr (solved, performSuites, ws1)) \<Rightarrow>
          if solved then
            (case RunSuites env (GetControl env) performSuites EnvironmentResult_ctor
                    (call_OnBegin (GetControl env) ws1) of
               None \<Rightarrow> None
             | Some (Inl e) \<Rightarrow> Some (Inl e)
             | Some (Inr (procceed, st)) \<Rightarrow>
                 Some (Inr (r_result st, performSuites,
                   call_OnEnd (GetControl env) (r_result st) (r_world st))))
          else Some (Inr (EnvironmentResult_ctor, performSuites, ws1)))"

section \<open>The scheduler of the older revision\<close>

text \<open>
  \<open>Suite::Run\<close>, \<open>Suite::ExecFunction\<close> and \<open>Test::Run\<close> have the same text in both
  revisions, and the inline folds of the older result classes compute what
  \<open>ResultObject::AddResult\<close> computes, so the definitions above serve for both. The older
  \<open>RunSuites\<close> and \<open>CheckDependencies\<close> differ. There the environment result has no
  total and no connector vector: a dependency's result is searched by name, and a
  missing one is the static \<open>NULL_Result\<close>, whose total is \<open>Success\<close>. The older
  \<open>SetTotalResult\<close> also clears the test results.
\<close>

definition SetTotalResult_r1 :: "Result \<Rightarrow> SuiteResult \<Rightarrow> SuiteResult" where
  "SetTotalResult_r1 r sr = sr\<lparr>m_TestResults := [], m_TotalResult := r\<rparr>"

definition EnvironmentResult_AddResult_r1 ::
  "SuiteResult \<Rightarrow> EnvironmentResult \<Rightarrow> EnvironmentResult" where
  "EnvironmentResult_AddResult_r1 r er = er\<lparr>m_SuiteResults := m_SuiteResults er @ [r]\<rparr>"

text \<open>\<open>EnvironmentResult::GetResult(name)\<close>; \<open>None\<close> stands for \<open>NULL_Result\<close>.\<close>

fun GetResult_name_r1 :: "'w Environment \<Rightarrow> SuiteResult list \<Rightarrow> string \<Rightarrow> SuiteResult option" where
  "GetResult_name_r1 env [] n = None"
| "GetResult_name_r1 env (r # rs) n =
     (if m_Name (m_Info (m_Suites env ! m_Suite r)) = n then Some r
      else GetResult_name_r1 env rs n)"

fun CheckDependencies_loop_r1 ::
  "'w Environment \<Rightarrow> 'w ControlCallback \<Rightarrow> nat \<Rightarrow> string list \<Rightarrow> EnvironmentResult \<Rightarrow> 'w world
    \<Rightarrow> bool option \<times> 'w world" where
  "CheckDependencies_loop_r1 env ctl s [] res ws = (None, ws)"
| "CheckDependencies_loop_r1 env ctl s (dep # deps) res ws =
     (case GetResult_name_r1 env (m_SuiteResults res) dep of
        None \<Rightarrow> CheckDependencies_loop_r1 env ctl s deps res ws
      | Some suiteRes \<Rightarrow>
          if m_TotalResult suiteRes \<noteq> Success then
            (case call_OnDependencyFail ctl s (m_Suite suiteRes) suiteRes ws of
               (action, ws1) \<Rightarrow>
                 if action = Ignore then CheckDependencies_loop_r1 env ctl s deps res ws1
                 else if action = AbortCurrent then (Some True, ws1)
                 else (Some False, ws1))
          else CheckDependencies_loop_r1 env ctl s deps res ws)"

text \<open>
  One pass through the loop body of the older \<open>RunSuites\<close>. After \<open>Suite::Run\<close> the
  code reads
  \<^verbatim>\<open>bool succe = (*it)->Run(suiteResult); if(!abort) procceed = false;\<close>
  where \<open>abort\<close> is no variable of the function: the name denotes the C library
  function, whose address is not null, so the condition is false and \<open>procceed\<close>
  keeps its value \<open>true\<close> whatever \<open>Suite::Run\<close> returned.
\<close>

definition RunSuites_step_r1 ::
  "'w Environment \<Rightarrow> 'w ControlCallback \<Rightarrow> nat \<Rightarrow> EnvironmentResult \<times> 'w world
    \<Rightarrow> (fault + bool \<times> EnvironmentResult \<times> 'w world) option" where
  "RunSuites_step_r1 env ctl s st =
     (case st of
        (res, ws) \<Rightarrow>
          if \<not> s < length (m_Suites env) then Some (Inl IndexOutOfRange)
          else
            (case CheckDependencies_loop_r1 env ctl s (m_Dependencies (m_Suites env ! s)) res
                    (call_OnSuiteBegin ctl s ws) of
               (chk, ws1) \<Rightarrow>
                 (case (case chk of
                          None \<Rightarrow>
                            (case Suite_Run ctl s (m_Suites env ! s) (SuiteResult_ctor s) ws1 of
                               None \<Rightarrow> None
                             | Some (succe, suiteResult, ws2) \<Rightarrow> Some (True, suiteResult, ws2))
                        | Some procceed \<Rightarrow>
                            Some (procceed, SetTotalResult_r1 Unknown (SuiteResult_ctor s), ws1)) of
                    None \<Rightarrow> None
                  | Some (procceed, suiteResult, ws2) \<Rightarrow>
                      Some (Inr (procceed,
                        EnvironmentResult_AddResult_r1 suiteResult res,
                        call_OnSuiteEnd ctl suiteResult ws2)))))"

fun RunSuites_r1 ::
  "'w Environment \<Rightarrow> 'w ControlCallback \<Rightarrow> nat list \<Rightarrow> EnvironmentResult \<times> 'w world
    \<Rightarrow> (fault + bool \<times> EnvironmentResult \<times> 'w world) option" where
  "RunSuites_r1 env ctl [] st = Some (Inr (True, st))"
| "RunSuites_r1 env ctl (s # suites) st =
     (case RunSuites_step_r1 env ctl s st of
        None \<Rightarrow> None
      | Some (Inl e) \<Rightarrow> Some (Inl e)
      | Some (Inr (procceed, st')) \<Rightarrow>
          if \<not> procceed then Some (Inr (False, st')) else RunSuites_r1 env ctl suites st')"

section \<open>Dependency graph and resolver invariants\<close>

text \<open>
  The edges the resolver follows: suite \<open>a\<close> names a dependency that the name map
  resolves to suite \<open>b\<close>. \<open>deps_resolve\<close>: every declared name is in the map.
  \<open>wf_env\<close>: the map only holds indices of registered suites.
\<close>

definition dep_edges :: "'w Environment \<Rightarrow> (nat \<times> nat) set" where
  "dep_edges env =
     {(a, b). a < length (m_Suites env) \<and>
        (\<exists>d \<in> set (m_Dependencies (m_Suites env ! a)). m_SuiteMap env d = Some b)}"

definition deps_resolve :: "'w Environment \<Rightarrow> bool" where
  "deps_resolve env =
     list_all (\<lambda>s. list_all (\<lambda>d. m_SuiteMap env d \<noteq> None) (m_Dependencies s)) (m_Suites env)"

definition wf_env :: "'w Environment \<Rightarrow> bool" where
  "wf_env env = (\<forall>n i. m_SuiteMap env n = Some i \<longrightarrow> i < length (m_Suites env))"

text \<open>The suites with the permanent mark and those with the on-stack mark.\<close>

definition permS :: "'w topo \<Rightarrow> nat set" where
  "permS st = {i. i < length (mark st) \<and> fst (mark st ! i)}"

definition tempS :: "'w topo \<Rightarrow> nat set" where
  "tempS st = {i. i < length (mark st) \<and> snd (mark st ! i)}"

text \<open>An order is dependency-respecting: what a member depends on stands before it.\<close>

definition ordered :: "'w Environment \<Rightarrow> nat list \<Rightarrow> bool" where
  "ordered env r = (\<forall>k<length r. \<forall>b. (r ! k, b) \<in> dep_edges env \<longrightarrow> b \<in> set (take k r))"

definition topo_inv :: "'w Environment \<Rightarrow> 'w topo \<Rightarrow> bool" where
  "topo_inv env st \<longleftrightarrow>
     length (mark st) = length (m_Suites env) \<and> set (result st) = permS st \<and>
     distinct (result st) \<and> ordered env (result st)"

text \<open>What a visit that returns 0 may change.\<close>

definition extends :: "'w topo \<Rightarrow> 'w topo \<Rightarrow> bool" where
  "extends st st' \<longleftrightarrow>
     length (mark st') = length (mark st) \<and> tempS st' = tempS st \<and>
     (\<exists>new. result st' = result st @ new \<and> distinct new \<and>
        permS st' = permS st \<union> set new \<and> set new \<inter> (permS st \<union> tempS st) = {}) \<and>
     unsolvable st' = unsolvable st \<and> world st' = world st"

text \<open>
  What holds of every visit that returns: the code is 0, 1 or 2; only code 2 has
  touched the world, by one consultation of the policy about an unknown name that it
  did not answer with \<open>Ignore\<close>, and then the unsolvable list is as before.
\<close>

definition visit_post :: "'w topo \<Rightarrow> int \<Rightarrow> 'w topo \<Rightarrow> bool" where
  "visit_post st r st' \<longleftrightarrow>
     (r = 0 \<or> r = 1 \<or> r = 2) \<and>
     (r \<noteq> 2 \<longrightarrow> world st' = world st) \<and>
     (r = 2 \<longrightarrow> unsolvable st' = unsolvable st \<and>
        (\<exists>s d a u. a \<noteq> Ignore \<and> world st' = emit (EvUnknownDependency s d a) u (world st)))"

text \<open>The suites not on the stack of the traversal; they bound its depth.\<close>

definition off_stack :: "'w topo \<Rightarrow> nat set" where
  "off_stack st = {..<length (mark st)} - tempS st"






definition topo_init :: "'w Environment \<Rightarrow> 'w world \<Rightarrow> 'w topo" where
  "topo_init env ws =
     \<lparr>result = [], mark = replicate (length (m_Suites env)) (False, False),
      unsolvable = [], world = ws\<rparr>"

text \<open>
  The invariant of the loop of \<open>RunSuites\<close> after the suites \<open>pre\<close> have been
  processed: the name map is as registration left it; there is one suite result per
  processed suite, in order; and for every map index \<open>i\<close> that the name of a processed
  suite resolves to, \<open>resultConnector[i]\<close> is the position of a recorded result of a
  suite whose name resolves to \<open>i\<close>.
\<close>

definition name_of :: "'w Environment \<Rightarrow> nat \<Rightarrow> string" where
  "name_of env s = m_Name (m_Info (m_Suites env ! s))"

definition run_inv :: "'w Environment \<Rightarrow> nat list \<Rightarrow> 'w run_state \<Rightarrow> bool" where
  "run_inv env pre st \<longleftrightarrow>
     r_map st = m_SuiteMap env \<and> length (r_connector st) = length (m_Suites env) \<and>
     map m_Suite (m_SuiteResults (r_result st)) = pre \<and>
     (\<forall>i. (\<exists>k<length pre. m_SuiteMap env (name_of env (pre ! k)) = Some i) \<longrightarrow>
        r_connector st ! i < length pre \<and>
        m_SuiteMap env (name_of env (pre ! (r_connector st ! i))) = Some i)"






text \<open>
  Decisions in the log. \<open>is_Abort\<close>: the policy answered \<open>Abort\<close> to an exception or
  to a failed dependency. \<open>harmless\<close>: the event is no decision, or a decision that
  never ends the run (\<open>Ignore\<close>, \<open>AbortCurrent\<close> and, for an exception, \<open>Procceed\<close>).
  \<open>flow_ok evs stop\<close> relates the events of a piece of the run to whether that piece
  told its caller to end the whole run: an \<open>Abort\<close> decision is the last event of
  the piece and ends the run; harmless events alone do not end it; and no suite
  begins inside the piece.
\<close>

fun is_Abort :: "event \<Rightarrow> bool" where
  "is_Abort (EvException i a) = (a = Abort)"
| "is_Abort (EvDependencyFail running failed a) = (a = Abort)"
| "is_Abort e = False"

fun harmless :: "event \<Rightarrow> bool" where
  "harmless (EvException i a) = (a = Ignore \<or> a = Procceed \<or> a = AbortCurrent)"
| "harmless (EvDependencyFail running failed a) = (a = Ignore \<or> a = AbortCurrent)"
| "harmless e = True"

fun is_EvSuiteBegin :: "event \<Rightarrow> bool" where
  "is_EvSuiteBegin (EvSuiteBegin s) = True"
| "is_EvSuiteBegin e = False"

definition flow_ok :: "event list \<Rightarrow> bool \<Rightarrow> bool" where
  "flow_ok evs stop \<longleftrightarrow>
     (\<forall>pre e post. evs = pre @ e # post \<and> is_Abort e \<longrightarrow> post = [] \<and> stop) \<and>
     (list_all harmless evs \<longrightarrow> \<not> stop) \<and>
     \<not> list_ex is_EvSuiteBegin evs"

definition calm :: "event list \<Rightarrow> bool" where
  "calm evs \<longleftrightarrow> list_all (\<lambda>e. harmless e \<and> \<not> is_Abort e \<and> \<not> is_EvSuiteBegin e) evs"

definition loop_flow :: "'w world \<Rightarrow> (bool + TestResult) \<times> 'w world \<Rightarrow> bool" where
  "loop_flow ws y \<longleftrightarrow>
     (\<exists>evs. trace (snd y) = trace ws @ evs \<and> flow_ok evs (fst y = Inl False))"

text \<open>
  The events of a run of the loop of \<open>RunSuites\<close> over \<open>suites\<close> that returned \<open>b\<close>:
  after an \<open>Abort\<close> decision nothing follows but the end of the suite in which it
  was taken, and the loop returns false; and when every event is harmless the loop
  returns true and every suite of the list has begun, in order.
\<close>

definition run_ok :: "event list \<Rightarrow> bool \<Rightarrow> nat list \<Rightarrow> bool" where
  "run_ok evs b suites \<longleftrightarrow>
     (\<forall>pre e post. evs = pre @ e # post \<and> is_Abort e \<longrightarrow> \<not> b \<and> (\<exists>s. post = [EvSuiteEnd s])) \<and>
     (list_all harmless evs \<longrightarrow> b \<and> filter is_EvSuiteBegin evs = map EvSuiteBegin suites)"

section \<open>Concrete environments\<close>

definition unit_world :: "unit world" where
  "unit_world = \<lparr>user = (), trace = []\<rparr>"

text \<open>A policy that answers \<open>Ignore\<close> to an unknown dependency name.\<close>

definition ignore_unknown :: "unit ControlCallback" where
  "ignore_unknown = ConsoleCallback\<lparr>OnUnknownDependency := (\<lambda>s d u. (Ignore, u))\<rparr>"

text \<open>One suite \<open>A\<close> that depends on the name \<open>B\<close>, which no suite has.\<close>

definition env_unknown :: "unit Environment" where
  "env_unknown = register_all [plain_suite ''A'' [''B'']]"



text \<open>Suite \<open>A\<close> (index 0) depends on suite \<open>B\<close> (index 1), registered after it.\<close>

definition env_chain :: "unit Environment" where
  "env_chain =
     (register_all [plain_suite ''A'' [''B''], plain_suite ''B'' []])
       \<lparr>m_Filter := [], m_Callback := None\<rparr>"

text \<open>The state of \<open>RunSuites\<close> on \<open>env_chain\<close> after suite \<open>B\<close> has been processed.\<close>

definition chain_after_B :: "unit run_state" where
  "chain_after_B =
     \<lparr>r_map = m_SuiteMap env_chain,
      r_result = \<lparr>m_TotalResult = Success,
        m_SuiteResults = [\<lparr>m_TotalResult = Success, m_Suite = 1, m_TestResults = []\<rparr>]\<rparr>,
      r_connector = [0, 0],
      r_world = \<lparr>user = (), trace = [EvSuiteBegin 1, EvSuiteEnd 1]\<rparr>\<rparr>"
















text \<open>
  Two suites without dependencies; the init fixture of the first throws. The policy
  answers \<open>Abort\<close> to every exception.
\<close>

definition throwing_fixture :: "unit SuiteFunction" where
  "throwing_fixture =
     \<lparr>m_FixFunc = Some (\<lambda>u. (True, u)),
      m_FixInfo = \<lparr>m_Name = ''suite.init'', m_File = [], m_Line = 3\<rparr>\<rparr>"

definition env_abort :: "unit Environment" where
  "env_abort =
     register_all [(plain_suite ''First'' [])\<lparr>m_Init := throwing_fixture\<rparr>,
                   plain_suite ''Second'' []]"

definition abort_policy :: "unit ControlCallback" where
  "abort_policy = ConsoleCallback\<lparr>OnException := (\<lambda>i u. (Abort, u))\<rparr>"

text \<open>The flag a run of \<open>RunSuites\<close> returns and the log it leaves.\<close>

definition flag_and_log_r1 ::
  "(fault + bool \<times> EnvironmentResult \<times> 'w world) option \<Rightarrow> (bool \<times> event list) option" where
  "flag_and_log_r1 x =
     (case x of Some (Inr (b, res, ws)) \<Rightarrow> Some (b, trace ws) | _ \<Rightarrow> None)"

definition flag_and_log ::
  "(fault + bool \<times> 'w run_state) option \<Rightarrow> (bool \<times> event list) option" where
  "flag_and_log x =
     (case x of Some (Inr (b, st)) \<Rightarrow> Some (b, trace (r_world st)) | _ \<Rightarrow> None)"

section \<open>Properties of the result model\<close>

lemma AddResult_total_worse: "AddResult_total t r = worse t r"
  by (cases t; cases r) (simp_all add: AddResult_total_def worse_def)

lemma worse_assoc: "worse (worse a b) c = worse a (worse b c)"
  by (cases a; cases b; cases c) (simp_all add: worse_def)

lemma worse_commute: "worse a b = worse b a"
  by (cases a; cases b) (simp_all add: worse_def)

lemma worse_Success [simp]: "worse a Success = a" "worse Success a = a"
  by (cases a; simp add: worse_def)+

lemma fold_AddResult_total:
  "fold (\<lambda>r t. AddResult_total t r) rs t0 = worse t0 (max_severity rs)"
proof (induction rs arbitrary: t0)
  case Nil
  show ?case by (simp add: max_severity_def)
next
  case (Cons r rs)
  have "fold (\<lambda>r t. AddResult_total t r) (r # rs) t0 = worse (worse t0 r) (max_severity rs)"
    using Cons.IH [of "AddResult_total t0 r"] by (simp add: AddResult_total_worse)
  also have "\<dots> = worse t0 (max_severity (r # rs))"
    by (simp add: worse_assoc max_severity_def)
  finally show ?case .
qed

lemma max_severity_set:
  "max_severity rs =
     (if Fail \<in> set rs then Fail else if Unknown \<in> set rs then Unknown else Success)"
proof (induction rs)
  case Nil
  show ?case by (simp add: max_severity_def)
next
  case (Cons r rs)
  have "max_severity (r # rs) = worse r (max_severity rs)"
    by (simp add: max_severity_def)
  with Cons.IH show ?case
    by (cases r) (auto simp: worse_def)
qed

lemma max_severity_mset: "mset rs' = mset rs \<Longrightarrow> max_severity rs' = max_severity rs"
  using mset_eq_setD [of rs' rs] by (simp add: max_severity_set)

lemma total_fold_TestResult:
  "m_TotalResult (fold TestResult_AddResult as tr) =
     fold (\<lambda>r t. AddResult_total t r) (map m_TotalResult as) (m_TotalResult tr)"
  by (induction as arbitrary: tr) (simp_all add: TestResult_AddResult_def ResultObject_AddResult_def)

lemma total_fold_SuiteResult:
  "m_TotalResult (fold SuiteResult_AddResult ts sr) =
     fold (\<lambda>r t. AddResult_total t r) (map m_TotalResult ts) (m_TotalResult sr)"
  by (induction ts arbitrary: sr) (simp_all add: SuiteResult_AddResult_def ResultObject_AddResult_def)

lemma total_fold_EnvironmentResult:
  "m_TotalResult (fold EnvironmentResult_AddResult ss er) =
     fold (\<lambda>r t. AddResult_total t r) (map m_TotalResult ss) (m_TotalResult er)"
  by (induction ss arbitrary: er)
    (simp_all add: EnvironmentResult_AddResult_def ResultObject_AddResult_def)


text \<open>
  C10. The two revisions fold alike: for every current total and every added outcome
  the inline fold of the older \<open>TestResult::AddResult\<close> and \<open>SuiteResult::AddResult\<close>
  gives the same object as the newer ones, which call the shared
  \<open>ResultObject::AddResult\<close>.
\<close>

theorem AddResult_revisions_agree:
  "AddResult_total_r1 tot r = AddResult_total tot r \<and>
   TestResult_AddResult_r1 a tr = TestResult_AddResult a tr \<and>
   SuiteResult_AddResult_r1 t sr = SuiteResult_AddResult t sr"
proof -
  have total: "AddResult_total_r1 x y = AddResult_total x y" for x y
    by (cases x; cases y) (simp_all add: AddResult_total_r1_def AddResult_total_def)
  show ?thesis
    by (simp add: total TestResult_AddResult_r1_def TestResult_AddResult_def
        SuiteResult_AddResult_r1_def SuiteResult_AddResult_def ResultObject_AddResult_def)
qed

text \<open>
  C1. A test, suite or environment result that starts from its constructor and
  receives the children \<open>cs\<close> through \<open>AddResult\<close> ends with the maximum-severity
  outcome of the children's totals (order \<open>Fail > Unknown > Success\<close>); feeding a
  permutation of the same outcomes gives the same total; and a total that is \<open>Fail\<close>
  stays \<open>Fail\<close> under any further \<open>AddResult\<close>.
\<close>

theorem AddResult_max_severity:
  "m_TotalResult (fold TestResult_AddResult as (TestResult_ctor t)) =
     max_severity (map m_TotalResult as) \<and>
   m_TotalResult (fold SuiteResult_AddResult ts (SuiteResult_ctor s)) =
     max_severity (map m_TotalResult ts) \<and>
   m_TotalResult (fold EnvironmentResult_AddResult ss EnvironmentResult_ctor) =
     max_severity (map m_TotalResult ss) \<and>
   (mset (map m_TotalResult as') = mset (map m_TotalResult as) \<longrightarrow>
      m_TotalResult (fold TestResult_AddResult as' (TestResult_ctor t)) =
      m_TotalResult (fold TestResult_AddResult as (TestResult_ctor t))) \<and>
   (mset (map m_TotalResult ts') = mset (map m_TotalResult ts) \<longrightarrow>
      m_TotalResult (fold SuiteResult_AddResult ts' (SuiteResult_ctor s)) =
      m_TotalResult (fold SuiteResult_AddResult ts (SuiteResult_ctor s))) \<and>
   (mset (map m_TotalResult ss') = mset (map m_TotalResult ss) \<longrightarrow>
      m_TotalResult (fold EnvironmentResult_AddResult ss' EnvironmentResult_ctor) =
      m_TotalResult (fold EnvironmentResult_AddResult ss EnvironmentResult_ctor)) \<and>
   (m_TotalResult obj = Fail \<longrightarrow> m_TotalResult (ResultObject_AddResult r obj) = Fail)"
proof -
  have test: "m_TotalResult (fold TestResult_AddResult xs (TestResult_ctor t)) =
      max_severity (map m_TotalResult xs)" for xs
    by (simp add: total_fold_TestResult fold_AddResult_total TestResult_ctor_def)
  have suite: "m_TotalResult (fold SuiteResult_AddResult xs (SuiteResult_ctor s)) =
      max_severity (map m_TotalResult xs)" for xs
    by (simp add: total_fold_SuiteResult fold_AddResult_total SuiteResult_ctor_def)
  have env: "m_TotalResult (fold EnvironmentResult_AddResult xs EnvironmentResult_ctor) =
      max_severity (map m_TotalResult xs)" for xs
    by (simp add: total_fold_EnvironmentResult fold_AddResult_total EnvironmentResult_ctor_def)
  have absorb: "m_TotalResult obj = Fail \<longrightarrow> m_TotalResult (ResultObject_AddResult r obj) = Fail"
    by (simp add: ResultObject_AddResult_def AddResult_total_def)
  show ?thesis
    unfolding test suite env using absorb by (simp add: max_severity_mset)
qed

theorem AddResult_max_severity_witness:
  "mset (map m_TotalResult [AssertResult_ctor no_info Fail [], AssertResult_ctor no_info Unknown []]) =
     mset (map m_TotalResult [AssertResult_ctor no_info Unknown [], AssertResult_ctor no_info Fail []]) \<and>
   m_TotalResult (fold TestResult_AddResult
       [AssertResult_ctor no_info Fail [], AssertResult_ctor no_info Unknown []] (TestResult_ctor (0, 0))) = Fail \<and>
   m_TotalResult (fold TestResult_AddResult
       [AssertResult_ctor no_info Unknown [], AssertResult_ctor no_info Fail []] (TestResult_ctor (0, 0))) = Fail \<and>
   m_TotalResult (ResultObject_AddResult Unknown (AssertResult_ctor no_info Fail [])) = Fail"
  using AddResult_max_severity [of "[AssertResult_ctor no_info Unknown [], AssertResult_ctor no_info Fail []]"
      "(0, 0)" "[]" 0 "[]" "[AssertResult_ctor no_info Fail [], AssertResult_ctor no_info Unknown []]" "[]" "[]"
      "AssertResult_ctor no_info Fail []" Unknown]
  by (simp add: AssertResult_ctor_def ResultObject_AddResult_def AddResult_total_def
      max_severity_def worse_def)

section \<open>Properties of registration\<close>

lemma RegisterSuite_fold_suites:
  "m_Suites (fold RegisterSuite ss env) = m_Suites env @ ss"
  by (induction ss arbitrary: env) (simp_all add: RegisterSuite_def)

text \<open>The name map after registrations: the first holder of a name keeps it.\<close>

lemma RegisterSuite_map_old:
  "m_SuiteMap env n = Some i \<Longrightarrow> m_SuiteMap (RegisterSuite s env) n = Some i"
  by (auto simp: RegisterSuite_def emplace_def split: option.splits)

lemma RegisterSuite_fold_map_old:
  "m_SuiteMap env n = Some i \<Longrightarrow> m_SuiteMap (fold RegisterSuite ss env) n = Some i"
  by (induction ss arbitrary: env) (simp_all add: RegisterSuite_map_old)

lemma RegisterSuite_fold_map_new:
  "m_SuiteMap env n = None \<Longrightarrow>
   m_SuiteMap (fold RegisterSuite ss env) n =
     (case find_index_name n ss of None \<Rightarrow> None | Some k \<Rightarrow> Some (length (m_Suites env) + k))"
proof (induction ss arbitrary: env)
  case Nil
  then show ?case by simp
next
  case (Cons s ss)
  show ?case
  proof (cases "m_Name (m_Info s) = n")
    case True
    then have "m_SuiteMap (RegisterSuite s env) n = Some (length (m_Suites env))"
      using Cons.prems by (simp add: RegisterSuite_def emplace_def)
    then show ?thesis
      using True by (simp add: RegisterSuite_fold_map_old)
  next
    case False
    then have none: "m_SuiteMap (RegisterSuite s env) n = None"
      using Cons.prems by (simp add: RegisterSuite_def emplace_def split: option.splits)
    show ?thesis
      using Cons.IH [OF none] False
      by (simp add: RegisterSuite_def split: option.splits)
  qed
qed

lemma register_all_suites [simp]: "m_Suites (register_all ss) = ss"
  by (simp add: register_all_def RegisterSuite_fold_suites Environment_ctor_def)

lemma register_all_map: "m_SuiteMap (register_all ss) n = find_index_name n ss"
  using RegisterSuite_fold_map_new [of Environment_ctor n ss]
  by (simp add: register_all_def Environment_ctor_def split: option.splits)

lemma find_index_name_Some:
  "find_index_name n ss = Some k \<longleftrightarrow>
     k < length ss \<and> m_Name (m_Info (ss ! k)) = n \<and> (\<forall>j<k. m_Name (m_Info (ss ! j)) \<noteq> n)"
proof (induction ss arbitrary: k)
  case Nil
  show ?case by simp
next
  case (Cons s ss)
  show ?case
  proof (cases "m_Name (m_Info s) = n")
    case True
    then show ?thesis by (cases k) auto
  next
    case False
    show ?thesis
    proof (cases k)
      case 0
      with False show ?thesis by (simp split: option.splits)
    next
      case (Suc k')
      have "(\<forall>j<Suc k'. m_Name (m_Info ((s # ss) ! j)) \<noteq> n) \<longleftrightarrow>
            (\<forall>j<k'. m_Name (m_Info (ss ! j)) \<noteq> n)"
        using False by (auto simp: less_Suc_eq_0_disj)
      with False Suc Cons.IH [of k'] show ?thesis
        by (auto split: option.splits)
    qed
  qed
qed

text \<open>
  C9 as stated (the map holds the index of the most recently registered suite of a
  name) fails: after two suites named \<open>A\<close> the map still holds index 0.
\<close>

theorem RegisterSuite_last_wins_counterexample:
  "m_SuiteMap (RegisterSuite (plain_suite ''A'' []) (RegisterSuite (plain_suite ''A'' [])
      Environment_ctor)) ''A'' = Some 0 \<and>
   m_SuiteMap (RegisterSuite (plain_suite ''A'' []) (RegisterSuite (plain_suite ''A'' [])
      Environment_ctor)) ''A'' \<noteq> Some 1"
  by (simp add: RegisterSuite_def emplace_def plain_suite_def Environment_ctor_def)

text \<open>
  C9, amended. After any sequence of registrations the suite list is the sequence
  itself (a duplicate name is not rejected), and the map sends a name to index \<open>k\<close>
  exactly when the \<open>k\<close>-th suite is the first one registered under that name.
\<close>

theorem RegisterSuite_first_wins:
  "m_Suites (register_all ss) = ss \<and>
   (m_SuiteMap (register_all ss) n = Some k \<longleftrightarrow>
      k < length ss \<and> m_Name (m_Info (ss ! k)) = n \<and>
      (\<forall>j<k. m_Name (m_Info (ss ! j)) \<noteq> n))"
  by (simp add: register_all_map find_index_name_Some)

theorem RegisterSuite_first_wins_witness:
  "m_Suites (register_all [plain_suite ''A'' [], plain_suite ''B'' [], plain_suite ''B'' []]) =
     [plain_suite ''A'' [], plain_suite ''B'' [], plain_suite ''B'' []] \<and>
   m_SuiteMap (register_all [plain_suite ''A'' [], plain_suite ''B'' [], plain_suite ''B'' []])
     ''B'' = Some 1 \<and>
   m_Name (m_Info ([plain_suite ''A'' [], plain_suite ''B'' [], plain_suite ''B'' []] ! 0))
      \<noteq> ''B''"
  using RegisterSuite_first_wins
    [of "[plain_suite ''A'' [], plain_suite ''B'' [], plain_suite ''B'' []]" "''B''" 1]
  by (simp add: plain_suite_def)
section \<open>Properties of the resolver\<close>

lemma permS_mark_update:
  "cur < length (mark st) \<Longrightarrow>
   permS (st\<lparr>mark := (mark st)[cur := (a, b)]\<rparr>) =
     (if a then insert cur (permS st) else permS st - {cur})"
  by (auto simp: permS_def nth_list_update)

lemma tempS_mark_update:
  "cur < length (mark st) \<Longrightarrow>
   tempS (st\<lparr>mark := (mark st)[cur := (a, b)]\<rparr>) =
     (if b then insert cur (tempS st) else tempS st - {cur})"
  by (auto simp: tempS_def nth_list_update)

lemma permS_simps [simp]:
  "permS (st\<lparr>result := r\<rparr>) = permS st"
  "permS (st\<lparr>unsolvable := u\<rparr>) = permS st"
  "permS (st\<lparr>world := w\<rparr>) = permS st"
  by (simp_all add: permS_def)

lemma tempS_simps [simp]:
  "tempS (st\<lparr>result := r\<rparr>) = tempS st"
  "tempS (st\<lparr>unsolvable := u\<rparr>) = tempS st"
  "tempS (st\<lparr>world := w\<rparr>) = tempS st"
  by (simp_all add: tempS_def)

lemma permS_iff: "i \<in> permS st \<longleftrightarrow> i < length (mark st) \<and> fst (mark st ! i)"
  by (simp add: permS_def)

lemma tempS_iff: "i \<in> tempS st \<longleftrightarrow> i < length (mark st) \<and> snd (mark st ! i)"
  by (simp add: tempS_def)

lemma extends_refl [simp]: "extends st st"
  by (simp add: extends_def)

lemma extends_world [simp]: "extends st (st\<lparr>world := w\<rparr>) \<longleftrightarrow> w = world st"
  by (auto simp: extends_def)

lemma extends_trans:
  assumes "extends st st'" and "extends st' st''"
  shows "extends st st''"
proof -
  from assms(1) obtain n1 where n1: "result st' = result st @ n1" "distinct n1"
      "permS st' = permS st \<union> set n1" "set n1 \<inter> (permS st \<union> tempS st) = {}"
    by (auto simp: extends_def)
  from assms(2) obtain n2 where n2: "result st'' = result st' @ n2" "distinct n2"
      "permS st'' = permS st' \<union> set n2" "set n2 \<inter> (permS st' \<union> tempS st') = {}"
    by (auto simp: extends_def)
  have t: "tempS st' = tempS st" using assms(1) by (simp add: extends_def)
  have "result st'' = result st @ (n1 @ n2)" using n1 n2 by simp
  moreover have "distinct (n1 @ n2)" using n1 n2 by auto
  moreover have "permS st'' = permS st \<union> set (n1 @ n2)" using n1 n2 by auto
  moreover have "set (n1 @ n2) \<inter> (permS st \<union> tempS st) = {}" using n1 n2 t by auto
  ultimately have "\<exists>new. result st'' = result st @ new \<and> distinct new \<and>
        permS st'' = permS st \<union> set new \<and> set new \<inter> (permS st \<union> tempS st) = {}"
    by blast
  then show ?thesis
    using assms by (simp add: extends_def)
qed

lemma extends_permS_mono: "extends st st' \<Longrightarrow> permS st \<subseteq> permS st'"
  by (auto simp: extends_def)

lemma ordered_Nil [simp]: "ordered env []"
  by (simp add: ordered_def)

lemma ordered_snoc:
  "ordered env (r @ [c]) \<longleftrightarrow> ordered env r \<and> (\<forall>b. (c, b) \<in> dep_edges env \<longrightarrow> b \<in> set r)"
proof -
  have "ordered env (r @ [c]) \<longleftrightarrow>
      (\<forall>k<length r. \<forall>b. ((r @ [c]) ! k, b) \<in> dep_edges env \<longrightarrow> b \<in> set (take k (r @ [c]))) \<and>
      (\<forall>b. ((r @ [c]) ! length r, b) \<in> dep_edges env \<longrightarrow> b \<in> set (take (length r) (r @ [c])))"
    by (auto simp: ordered_def less_Suc_eq)
  then show ?thesis
    by (simp add: ordered_def nth_append)
qed

lemma ordered_before:
  assumes "ordered env r" and "r = pre @ a # post" and "(a, b) \<in> dep_edges env"
  shows "b \<in> set pre"
proof -
  have "length pre < length r" and "r ! length pre = a" and "take (length pre) r = pre"
    using assms(2) by simp_all
  with assms(1,3) show ?thesis
    unfolding ordered_def by metis
qed


lemma topo_inv_mark_temp:
  assumes "topo_inv env st" and "cur < length (mark st)" and "cur \<notin> permS st"
  shows "topo_inv env (st\<lparr>mark := (mark st)[cur := (fst (mark st ! cur), True)]\<rparr>)"
proof -
  have "permS (st\<lparr>mark := (mark st)[cur := (fst (mark st ! cur), True)]\<rparr>) = permS st"
    using assms(2,3) by (auto simp: permS_def nth_list_update)
  with assms(1) show ?thesis by (simp add: topo_inv_def)
qed

lemma visit_finish:
  assumes inv: "topo_inv env st" and cur: "cur < length (mark st)"
    and nt: "cur \<notin> tempS st" and np: "cur \<notin> permS st"
    and ext: "extends (st\<lparr>mark := (mark st)[cur := (fst (mark st ! cur), True)]\<rparr>) stl"
    and invl: "topo_inv env stl"
    and deps: "\<forall>b. (cur, b) \<in> dep_edges env \<longrightarrow> b \<in> permS stl"
  defines "st' \<equiv> stl\<lparr>mark := (mark stl)[cur := (True, False)], result := result stl @ [cur]\<rparr>"
  shows "extends st st' \<and> topo_inv env st' \<and> cur \<in> permS st'"
proof -
  let ?stm = "st\<lparr>mark := (mark st)[cur := (fst (mark st ! cur), True)]\<rparr>"
  have pm: "permS ?stm = permS st"
    using cur np by (auto simp: permS_def nth_list_update)
  have tm: "tempS ?stm = insert cur (tempS st)"
    using cur by (simp add: tempS_mark_update)
  from ext obtain new where new: "result stl = result st @ new" "distinct new"
      "permS stl = permS st \<union> set new" "set new \<inter> (permS st \<union> insert cur (tempS st)) = {}"
    and len: "length (mark stl) = length (mark st)" and tl: "tempS stl = insert cur (tempS st)"
    and rest: "unsolvable stl = unsolvable st" "world stl = world st"
    unfolding extends_def pm tm by auto
  have curl: "cur < length (mark stl)" using len cur by simp
  have cn: "cur \<notin> set new" using new(4) by auto
  have p': "permS st' = insert cur (permS stl)"
    unfolding st'_def using curl by (simp add: permS_mark_update)
  have t': "tempS st' = tempS st"
    unfolding st'_def using curl tl nt by (simp add: tempS_mark_update)
  have "result st' = result st @ (new @ [cur])" by (simp add: st'_def new)
  moreover have "distinct (new @ [cur])" using new(2) cn by simp
  moreover have "permS st' = permS st \<union> set (new @ [cur])" using p' new(3) by auto
  moreover have "set (new @ [cur]) \<inter> (permS st \<union> tempS st) = {}"
    using new(4) nt np by auto
  ultimately have ex: "\<exists>n. result st' = result st @ n \<and> distinct n \<and>
      permS st' = permS st \<union> set n \<and> set n \<inter> (permS st \<union> tempS st) = {}"
    by blast
  have e: "extends st st'"
    unfolding extends_def using ex t' len rest by (simp add: st'_def)
  have cnl: "cur \<notin> permS stl" using new(3) np cn by simp
  have "topo_inv env st'"
    using invl cnl deps p' unfolding topo_inv_def
    by (auto simp: st'_def ordered_snoc)
  with e p' show ?thesis by simp
qed

lemma visit_post_refl: "r = 0 \<or> r = 1 \<Longrightarrow> visit_post st r st"
  by (auto simp: visit_post_def)

lemma visit_post_trans0:
  "extends st st1 \<Longrightarrow> visit_post st1 r st' \<Longrightarrow> visit_post st r st'"
  by (auto simp: visit_post_def extends_def)

lemma TopoVisit_inv:
  "\<lbrakk>topo_inv env st; TopoVisit fuel env ctl cur st = Some (Inr (r, st'))\<rbrakk> \<Longrightarrow>
     visit_post st r st' \<and>
     (r = 0 \<longrightarrow> extends st st' \<and> topo_inv env st' \<and> cur \<in> permS st')"
  and TopoVisit_loop_inv:
  "\<lbrakk>topo_inv env st; cur \<in> tempS st; cur \<notin> permS st;
    TopoVisit_loop fuel env ctl cur deps st = Some (Inr (r, st'))\<rbrakk> \<Longrightarrow>
     visit_post st r st' \<and>
     (r = 0 \<longrightarrow> extends st st' \<and> topo_inv env st' \<and>
        (\<forall>d\<in>set deps. \<exists>j. m_SuiteMap env d = Some j \<and> j \<in> permS st'))"
proof (induction fuel env ctl cur st and fuel env ctl cur deps st arbitrary: r st' and r st'
    rule: TopoVisit_TopoVisit_loop.induct)
  case (1 env ctl cur st)
  then show ?case by simp
next
  case (2 fuel env ctl cur st)
  let ?stm = "st\<lparr>mark := (mark st)[cur := (fst (mark st ! cur), True)]\<rparr>"
  note run = "2.prems"(2)
  show ?case
  proof (cases "cur < length (mark st) \<and> \<not> snd (mark st ! cur) \<and> \<not> fst (mark st ! cur)
      \<and> cur < length (m_Suites env)")
    case False
    then show ?thesis
      using run "2.prems"(1) by (auto simp: visit_post_def permS_def split: if_splits)
  next
    case True
    then have c: "cur < length (mark st)" "\<not> snd (mark st ! cur)" "\<not> fst (mark st ! cur)"
      "cur < length (m_Suites env)" by simp_all
    have np: "cur \<notin> permS st" and nt: "cur \<notin> tempS st"
      using c by (simp_all add: permS_def tempS_def)
    have invm: "topo_inv env ?stm"
      using "2.prems"(1) c(1) np by (rule topo_inv_mark_temp)
    have tm: "cur \<in> tempS ?stm" using c(1) by (simp add: tempS_mark_update)
    have pm: "cur \<notin> permS ?stm" using c(1,3) np by (simp add: permS_mark_update)
    from run c obtain r0 stl where
      loop: "TopoVisit_loop fuel env ctl cur (m_Dependencies (m_Suites env ! cur)) ?stm
               = Some (Inr (r0, stl))"
      by (auto split: option.splits sum.splits if_splits)
    have ih: "visit_post ?stm r0 stl \<and>
     (r0 = 0 \<longrightarrow> extends ?stm stl \<and> topo_inv env stl \<and>
        (\<forall>d\<in>set (m_Dependencies (m_Suites env ! cur)).
            \<exists>j. m_SuiteMap env d = Some j \<and> j \<in> permS stl))"
      using "2.IH" [OF _ _ _ _ invm tm pm loop] c by simp
    show ?thesis
    proof (cases "r0 = 0")
      case False
      then have "r = r0" "st' = stl"
        using run c loop by simp_all
      then show ?thesis
        using ih False by (auto simp: visit_post_def)
    next
      case True
      have lenl: "cur < length (mark stl)"
        using ih True c(1) by (simp add: extends_def)
      have res: "r = 0" "st' = stl\<lparr>mark := (mark stl)[cur := (True, False)],
          result := result stl @ [cur]\<rparr>"
        using run c loop True lenl by simp_all
      have deps: "\<forall>b. (cur, b) \<in> dep_edges env \<longrightarrow> b \<in> permS stl"
        using ih True by (auto simp: dep_edges_def)
      have fin: "extends st st' \<and> topo_inv env st' \<and> cur \<in> permS st'"
        unfolding res(2)
        using visit_finish [OF "2.prems"(1) c(1) nt np _ _ deps] ih True by simp
      then have "world st' = world st" by (simp add: extends_def)
      with fin res(1) show ?thesis by (simp add: visit_post_def)
    qed
  qed
next
  case (3 fuel env ctl cur st)
  then show ?case by (simp add: visit_post_def)
next
  case (4 fuel env ctl cur depName deps st)
  note run = "4.prems"(4)
  have c: "cur < length (mark st)" "\<not> fst (mark st ! cur)"
    using "4.prems"(2,3) by (auto simp: tempS_def permS_def)
  show ?case
  proof (cases "m_SuiteMap env depName")
    case None
    obtain a ws where call: "call_OnUnknownDependency ctl cur depName (world st) = (a, ws)"
      by (cases "call_OnUnknownDependency ctl cur depName (world st)")
    then have ws: "ws = emit (EvUnknownDependency cur depName a)
        (snd (OnUnknownDependency ctl cur depName (user (world st)))) (world st)"
      by (auto simp: call_OnUnknownDependency_def split: prod.splits)
    from run c None call have "a \<noteq> Ignore" "r = 2" "st' = st\<lparr>world := ws\<rparr>"
      by (auto split: if_splits)
    then show ?thesis
      using ws by (auto simp: visit_post_def)
  next
    case (Some d)
    from run c Some obtain vr st1 where
      visit: "TopoVisit fuel env ctl d st = Some (Inr (vr, st1))"
      by (auto split: option.splits sum.splits)
    have ihP: "visit_post st vr st1 \<and>
        (vr = 0 \<longrightarrow> extends st st1 \<and> topo_inv env st1 \<and> d \<in> permS st1)"
      using "4.IH"(2) [OF _ _ Some "4.prems"(1) visit] c by simp
    show ?thesis
    proof (cases "vr = 0")
      case False
      then have "vr = 1 \<or> vr = 2" using ihP by (auto simp: visit_post_def)
      then show ?thesis
      proof
        assume v1: "vr = 1"
        then have "r = 1" "st' = st1\<lparr>unsolvable := unsolvable st1 @ [d]\<rparr>"
          using run c Some visit by (auto split: if_splits)
        then show ?thesis using ihP v1 by (auto simp: visit_post_def)
      next
        assume v2: "vr = 2"
        then have "r = 2" "st' = st1"
          using run c Some visit by (auto split: if_splits)
        then show ?thesis using ihP v2 by (auto simp: visit_post_def)
      qed
    next
      case True
      then have e1: "extends st st1" and inv1: "topo_inv env st1" and d1: "d \<in> permS st1"
        using ihP by simp_all
      have t1: "cur \<in> tempS st1" using e1 "4.prems"(2) by (simp add: extends_def)
      have p1: "cur \<notin> permS st1"
        using e1 "4.prems"(2,3) by (auto simp: extends_def)
      have loop: "TopoVisit_loop fuel env ctl cur deps st1 = Some (Inr (r, st'))"
        using run c Some visit True by simp
      have ihQ: "visit_post st1 r st' \<and>
         (r = 0 \<longrightarrow> extends st1 st' \<and> topo_inv env st' \<and>
            (\<forall>d\<in>set deps. \<exists>j. m_SuiteMap env d = Some j \<and> j \<in> permS st'))"
        using "4.IH"(3) [OF _ _ Some visit refl refl _ inv1 t1 p1 loop] c True
        by simp
      have vp: "visit_post st r st'"
        using e1 ihQ by (blast intro: visit_post_trans0)
      show ?thesis
      proof (cases "r = 0")
        case False
        with vp show ?thesis by simp
      next
        case True
        then have e2: "extends st1 st'" using ihQ by simp
        have "d \<in> permS st'" using d1 extends_permS_mono [OF e2] by auto
        with ihQ True vp Some extends_trans [OF e1 e2] show ?thesis by simp
      qed
    qed
  qed
qed

text \<open>The fuel is enough when it exceeds the number of suites not on the stack.\<close>

lemma off_stack_mark_temp:
  assumes "cur < length (mark st)" and "cur \<notin> tempS st"
  shows "card (off_stack (st\<lparr>mark := (mark st)[cur := (a, True)]\<rparr>)) < card (off_stack st)"
proof -
  have "off_stack (st\<lparr>mark := (mark st)[cur := (a, True)]\<rparr>) = off_stack st - {cur}"
    using assms(1) by (auto simp: off_stack_def tempS_mark_update)
  moreover have "cur \<in> off_stack st" using assms by (simp add: off_stack_def)
  moreover have "finite (off_stack st)" by (simp add: off_stack_def)
  ultimately show ?thesis by (metis card_Diff1_less)
qed

lemma off_stack_extends: "extends st st' \<Longrightarrow> off_stack st' = off_stack st"
  by (simp add: off_stack_def extends_def)


lemma deps_resolveD:
  "\<lbrakk>deps_resolve env; a < length (m_Suites env); d \<in> set (m_Dependencies (m_Suites env ! a))\<rbrakk>
   \<Longrightarrow> \<exists>j. m_SuiteMap env d = Some j"
  by (auto simp: deps_resolve_def list_all_iff)

text \<open>On an acyclic graph whose names all resolve, every visit returns 0.\<close>

lemma TopoVisit_acyclic:
  "\<lbrakk>wf_env env; deps_resolve env; acyclic (dep_edges env); topo_inv env st;
    cur < length (m_Suites env); \<forall>t\<in>tempS st. (t, cur) \<in> (dep_edges env)\<^sup>+;
    card (off_stack st) < fuel\<rbrakk>
   \<Longrightarrow> \<exists>st'. TopoVisit fuel env ctl cur st = Some (Inr (0, st'))"
  and TopoVisit_loop_acyclic:
  "\<lbrakk>wf_env env; deps_resolve env; acyclic (dep_edges env); topo_inv env st;
    cur \<in> tempS st; cur \<notin> permS st; \<forall>t\<in>tempS st. (t, cur) \<in> (dep_edges env)\<^sup>*;
    set deps \<subseteq> set (m_Dependencies (m_Suites env ! cur)); card (off_stack st) < fuel\<rbrakk>
   \<Longrightarrow> \<exists>st'. TopoVisit_loop fuel env ctl cur deps st = Some (Inr (0, st'))"
proof (induction fuel env ctl cur st and fuel env ctl cur deps st
    rule: TopoVisit_TopoVisit_loop.induct)
  case (1 env ctl cur st)
  then show ?case by simp
next
  case (2 fuel env ctl cur st)
  let ?stm = "st\<lparr>mark := (mark st)[cur := (fst (mark st ! cur), True)]\<rparr>"
  have len: "length (mark st) = length (m_Suites env)"
    using "2.prems"(4) by (simp add: topo_inv_def)
  have c1: "cur < length (mark st)" using len "2.prems"(5) by simp
  have nt: "cur \<notin> tempS st"
    using "2.prems"(3,6) by (auto simp: acyclic_def)
  then have c2: "\<not> snd (mark st ! cur)" using c1 by (simp add: tempS_def)
  show ?case
  proof (cases "fst (mark st ! cur)")
    case True
    then show ?thesis using c1 c2 by simp
  next
    case False
    then have np: "cur \<notin> permS st" by (simp add: permS_def)
    have invm: "topo_inv env ?stm"
      using "2.prems"(4) c1 np by (rule topo_inv_mark_temp)
    have tm: "cur \<in> tempS ?stm" using c1 by (simp add: tempS_mark_update)
    have pm: "cur \<notin> permS ?stm" using c1 False np by (simp add: permS_mark_update)
    have reach: "\<forall>t\<in>tempS ?stm. (t, cur) \<in> (dep_edges env)\<^sup>*"
      using "2.prems"(6) c1 by (auto simp: tempS_mark_update)
    have fuel: "card (off_stack ?stm) < fuel"
      using off_stack_mark_temp [OF c1 nt, of "fst (mark st ! cur)"] "2.prems"(7) by simp
    obtain stl where loop:
      "TopoVisit_loop fuel env ctl cur (m_Dependencies (m_Suites env ! cur)) ?stm
         = Some (Inr (0, stl))"
      using "2.IH" [OF _ _ _ _ "2.prems"(1,2,3) invm tm pm reach _ fuel] c1 c2 False "2.prems"(5)
      by auto
    have "extends ?stm stl"
      using TopoVisit_loop_inv [OF invm tm pm loop] by simp
    then have "cur < length (mark stl)" using c1 by (simp add: extends_def)
    then show ?thesis
      using c1 c2 False "2.prems"(5) loop by simp
  qed
next
  case (3 fuel env ctl cur st)
  then show ?case by simp
next
  case (4 fuel env ctl cur depName deps st)
  have len: "length (mark st) = length (m_Suites env)"
    using "4.prems"(4) by (simp add: topo_inv_def)
  have c: "cur < length (mark st)" "\<not> fst (mark st ! cur)"
    using "4.prems"(5,6) by (auto simp: tempS_def permS_def)
  have curN: "cur < length (m_Suites env)" using c(1) len by simp
  have dmem: "depName \<in> set (m_Dependencies (m_Suites env ! cur))"
    using "4.prems"(8) by simp
  obtain d where Some: "m_SuiteMap env depName = Some d"
    using deps_resolveD [OF "4.prems"(2) curN dmem] by blast
  have dN: "d < length (m_Suites env)"
    using "4.prems"(1) Some by (auto simp: wf_env_def)
  have edge: "(cur, d) \<in> dep_edges env"
    using curN dmem Some by (auto simp: dep_edges_def)
  have reach: "\<forall>t\<in>tempS st. (t, d) \<in> (dep_edges env)\<^sup>+"
    using "4.prems"(7) edge by (auto intro: rtrancl_into_trancl1)
  obtain st1 where visit: "TopoVisit fuel env ctl d st = Some (Inr (0, st1))"
    using "4.IH"(2) [OF _ _ Some "4.prems"(1,2,3,4) dN reach "4.prems"(9)] c by auto
  have post: "extends st st1" "topo_inv env st1"
    using TopoVisit_inv [OF "4.prems"(4) visit] by simp_all
  have t1: "tempS st1 = tempS st" using post(1) by (simp add: extends_def)
  have p1: "cur \<notin> permS st1"
    using post(1) "4.prems"(5,6) by (auto simp: extends_def)
  have fuel: "card (off_stack st1) < fuel"
    using "4.prems"(9) off_stack_extends [OF post(1)] by simp
  have sub: "set deps \<subseteq> set (m_Dependencies (m_Suites env ! cur))"
    using "4.prems"(8) by simp
  obtain st' where "TopoVisit_loop fuel env ctl cur deps st1 = Some (Inr (0, st'))"
    using "4.IH"(3) [OF _ _ Some visit refl refl _ "4.prems"(1,2,3) post(2) _ p1 _ sub fuel]
      c t1 "4.prems"(5,7) by auto
  then show ?case
    using c Some visit by simp
qed

declare TopoVisit.simps(2) [simp del]

lemma topo_inv_world [simp]: "topo_inv env (st\<lparr>world := w\<rparr>) = topo_inv env st"
  by (simp add: topo_inv_def)

lemma off_stack_world [simp]: "off_stack (st\<lparr>world := w\<rparr>) = off_stack st"
  by (simp add: off_stack_def)

lemma topo_inv_init: "topo_inv env (topo_init env ws)"
  by (simp add: topo_inv_def topo_init_def permS_def)

lemma tempS_init: "tempS (topo_init env ws) = {}"
  by (simp add: topo_init_def tempS_def)

lemma off_stack_bound: "topo_inv env st \<Longrightarrow> card (off_stack st) < Suc (length (m_Suites env))"
proof -
  assume "topo_inv env st"
  then have len: "length (mark st) = length (m_Suites env)" by (simp add: topo_inv_def)
  have "card (off_stack st) \<le> card {..<length (mark st)}"
    by (rule card_mono) (auto simp: off_stack_def)
  then show ?thesis using len by simp
qed




lemma AllowSuite_no_filter: "m_Filter env = [] \<Longrightarrow> AllowSuite env s ws = (True, ws)"
  by (simp add: AllowSuite_def)












text \<open>
  C4. With the policy answering \<open>Ignore\<close>, suite \<open>A\<close> depending on the unregistered
  name \<open>B\<close>: the resolver does not skip the edge. It leaves the \<open>if\<close> and evaluates
  \<open>dep->second\<close> on the end iterator of the name map; \<open>Run\<close> does not get past
  resolution.
\<close>

theorem TopoVisit_Ignore_reads_end_iterator:
  "SolveDependencies env_unknown ignore_unknown unit_world = Some (Inl EndIteratorDeref) \<and>
   Run (SetControl (Some ignore_unknown) env_unknown) unit_world = Some (Inl EndIteratorDeref)"
  by code_simp

text \<open>
  The same in general: in the loop of \<open>TopoVisit\<close>, an unknown name that the policy
  answers with \<open>Ignore\<close> always ends in the read through the end iterator.
\<close>

lemma TopoVisit_loop_Ignore:
  assumes "cur < length (mark st)" and "\<not> fst (mark st ! cur)"
    and "m_SuiteMap env depName = None"
    and "fst (call_OnUnknownDependency ctl cur depName (world st)) = Ignore"
  shows "TopoVisit_loop fuel env ctl cur (depName # deps) st = Some (Inl EndIteratorDeref)"
  using assms by (auto split: prod.splits)



lemma SolveDependencies_loop_acyclic:
  "\<lbrakk>wf_env env; deps_resolve env; acyclic (dep_edges env); topo_inv env st; tempS st = {};
    set is \<subseteq> {..<length (m_Suites env)}\<rbrakk>
   \<Longrightarrow> \<exists>st'. SolveDependencies_loop env ctl is st = Some (Inr (True, st')) \<and>
          topo_inv env st' \<and> tempS st' = {} \<and> permS st \<subseteq> permS st' \<and>
          (m_Filter env = [] \<longrightarrow> set is \<subseteq> permS st')"
proof (induction "is" arbitrary: st)
  case Nil
  then show ?case by simp
next
  case (Cons i "is")
  have len: "length (mark st) = length (m_Suites env)"
    using Cons.prems(4) by (simp add: topo_inv_def)
  have iN: "i < length (m_Suites env)" and sub: "set is \<subseteq> {..<length (m_Suites env)}"
    using Cons.prems(6) by simp_all
  obtain ok ws where a: "AllowSuite env i (world st) = (ok, ws)"
    by (cases "AllowSuite env i (world st)")
  let ?st = "st\<lparr>world := ws\<rparr>"
  have inv: "topo_inv env ?st" and temp: "tempS ?st = {}"
    using Cons.prems(4,5) by simp_all
  have ok_nf: "m_Filter env = [] \<Longrightarrow> ok"
    using a by (simp add: AllowSuite_no_filter)
  consider (marked) "fst (mark st ! i)" | (rejected) "\<not> fst (mark st ! i)" "\<not> ok"
    | (visit) "\<not> fst (mark st ! i)" "ok" by blast
  then show ?case
  proof cases
    case marked
    then have "i \<in> permS st" using iN len by (simp add: permS_def)
    moreover obtain st' where "SolveDependencies_loop env ctl is st = Some (Inr (True, st'))"
        "topo_inv env st'" "tempS st' = {}" "permS st \<subseteq> permS st'"
        "m_Filter env = [] \<longrightarrow> set is \<subseteq> permS st'"
      using Cons.IH [OF Cons.prems(1,2,3,4,5) sub] by blast
    ultimately show ?thesis using marked iN len by auto
  next
    case rejected
    obtain st' where "SolveDependencies_loop env ctl is ?st = Some (Inr (True, st'))"
        "topo_inv env st'" "tempS st' = {}" "permS ?st \<subseteq> permS st'"
        "m_Filter env = [] \<longrightarrow> set is \<subseteq> permS st'"
      using Cons.IH [OF Cons.prems(1,2,3) inv temp sub] by blast
    then show ?thesis using rejected a iN len ok_nf by auto
  next
    case visit
    have reach: "\<forall>t\<in>tempS ?st. (t, i) \<in> (dep_edges env)\<^sup>+" using temp by simp
    obtain st1 where v: "TopoVisit (Suc (length (m_Suites env))) env ctl i ?st = Some (Inr (0, st1))"
      using TopoVisit_acyclic [OF Cons.prems(1,2,3) inv iN reach off_stack_bound [OF inv]]
      by blast
    have post: "extends ?st st1" "topo_inv env st1" "i \<in> permS st1"
      using TopoVisit_inv [OF inv v] by simp_all
    have t1: "tempS st1 = {}" using post(1) temp by (simp add: extends_def)
    obtain st' where l: "SolveDependencies_loop env ctl is st1 = Some (Inr (True, st'))"
        "topo_inv env st'" "tempS st' = {}" "permS st1 \<subseteq> permS st'"
        "m_Filter env = [] \<longrightarrow> set is \<subseteq> permS st'"
      using Cons.IH [OF Cons.prems(1,2,3) post(2) t1 sub] by blast
    have "permS st \<subseteq> permS st'"
      using extends_permS_mono [OF post(1)] l(4) by auto
    moreover have "i \<in> permS st'" using post(3) l(4) by auto
    ultimately show ?thesis using visit a iN len v l by auto
  qed
qed

text \<open>
  On an acyclic graph whose names all resolve, resolution succeeds; the order has no
  repetition, respects every dependency edge and holds registered suites only; with
  no filter installed it holds every suite.
\<close>

lemma SolveDependencies_acyclic:
  assumes "wf_env env" and "deps_resolve env" and "acyclic (dep_edges env)"
  shows "\<exists>order ws'. SolveDependencies env ctl ws = Some (Inr (True, order, ws')) \<and>
      distinct order \<and> ordered env order \<and> set order \<subseteq> {..<length (m_Suites env)} \<and>
      (m_Filter env = [] \<longrightarrow> set order = {..<length (m_Suites env)})"
proof -
  let ?n = "length (m_Suites env)"
  have "set [0..<?n] \<subseteq> {..<?n}" by auto
  from SolveDependencies_loop_acyclic [OF assms topo_inv_init tempS_init this, of ctl ws]
  obtain st' where l: "SolveDependencies_loop env ctl [0..<?n] (topo_init env ws)
        = Some (Inr (True, st'))"
      "topo_inv env st'" "m_Filter env = [] \<longrightarrow> set [0..<?n] \<subseteq> permS st'"
    by blast
  have sub: "set (result st') \<subseteq> {..<?n}"
    using l(2) by (auto simp: topo_inv_def permS_def)
  have "SolveDependencies env ctl ws = Some (Inr (True, result st', world st'))"
    using l(1) by (simp add: SolveDependencies_def topo_init_def)
  moreover have "distinct (result st')" "ordered env (result st')"
    using l(2) by (simp_all add: topo_inv_def)
  moreover have "m_Filter env = [] \<longrightarrow> set (result st') = {..<?n}"
    using l(2,3) sub by (auto simp: topo_inv_def)
  ultimately show ?thesis using sub by blast
qed

section \<open>Properties of the scheduler\<close>

lemma wf_env_registered:
  "wf_env ((register_all ss)\<lparr>m_Filter := fs, m_Callback := cb\<rparr>)"
  by (auto simp: wf_env_def register_all_map find_index_name_Some)

lemma find_index_name_mem:
  "k < length ss \<Longrightarrow> find_index_name (m_Name (m_Info (ss ! k))) ss \<noteq> None"
proof (induction ss arbitrary: k)
  case Nil
  then show ?case by simp
next
  case (Cons s ss)
  show ?case
  proof (cases k)
    case 0
    then show ?thesis by simp
  next
    case (Suc k')
    then have "find_index_name (m_Name (m_Info (ss ! k'))) ss \<noteq> None"
      using Cons.IH [of k'] Cons.prems by simp
    then show ?thesis using Suc by (auto split: option.splits)
  qed
qed

lemma SuiteResult_AddResult_suite [simp]: "m_Suite (SuiteResult_AddResult r sr) = m_Suite sr"
  by (simp add: SuiteResult_AddResult_def ResultObject_AddResult_def)

lemma Suite_tests_suite:
  "Suite_tests ctl suite sid k ts res ws = Some (p, res', ws') \<Longrightarrow> m_Suite res' = m_Suite res"
proof (induction ts arbitrary: k res ws)
  case Nil
  then show ?case by simp
next
  case (Cons t ts)
  then show ?case
    by (auto split: option.splits sum.splits prod.splits)
qed

lemma Suite_Run_suite:
  "Suite_Run ctl sid suite res ws = Some (ok, res', ws') \<Longrightarrow> m_Suite res' = m_Suite res"
  by (auto simp: Suite_Run_def split: option.splits prod.splits dest: Suite_tests_suite)

lemma map_index_present: "m k = Some v \<Longrightarrow> map_index m k = (v, m)"
  by (simp add: map_index_def)

lemma CheckDependencies_loop_map:
  "\<lbrakk>\<forall>d\<in>set deps. m d \<noteq> None; CheckDependencies_loop ctl s deps res rc m ws = Inr (chk, m1, ws1)\<rbrakk>
   \<Longrightarrow> m1 = m"
proof (induction deps arbitrary: ws)
  case Nil
  then show ?case by simp
next
  case (Cons d deps)
  then obtain v where v: "m d = Some v" by auto
  show ?case
    using Cons.prems(2) Cons.IH Cons.prems(1)
    by (auto simp: map_index_present [of m d v, OF v] Let_def split: if_splits prod.splits)
qed

lemma RunSuites_loop_append:
  "RunSuites_loop env ctl (pre @ suites) st =
     (case RunSuites_loop env ctl pre st of
        None \<Rightarrow> None
      | Some (Inl e) \<Rightarrow> Some (Inl e)
      | Some (Inr (procceed, st')) \<Rightarrow>
          if \<not> procceed then Some (Inr (False, st')) else RunSuites_loop env ctl suites st')"
proof (induction pre arbitrary: st)
  case Nil
  show ?case by simp
next
  case (Cons s pre)
  show ?case
    by (simp add: Cons.IH split: option.splits sum.splits prod.splits)
qed
lemma RunSuites_step_elim:
  assumes "RunSuites_step env ctl s st = Some (Inr (p, st'))"
  obtains chk m1 ws1 sr ws2 suiteID m2 where
    "s < length (m_Suites env)"
    "CheckDependencies_loop ctl s (m_Dependencies (m_Suites env ! s)) (r_result st)
        (r_connector st) (r_map st) (call_OnSuiteBegin ctl s (r_world st)) = Inr (chk, m1, ws1)"
    "(chk = None \<and> Suite_Run ctl s (m_Suites env ! s) (SuiteResult_ctor s) ws1 = Some (p, sr, ws2)) \<or>
     (chk = Some p \<and> sr = SetTotalResult Unknown (SuiteResult_ctor s) \<and> ws2 = ws1)"
    "map_index m1 (m_Name (m_Info (m_Suites env ! s))) = (suiteID, m2)"
    "suiteID < length (r_connector st)"
    "st' = \<lparr>r_map = m2, r_result = EnvironmentResult_AddResult sr (r_result st),
        r_connector = (r_connector st)[suiteID := length (m_SuiteResults (r_result st))],
        r_world = call_OnSuiteEnd ctl sr ws2\<rparr>"
proof -
  let ?chk = "CheckDependencies_loop ctl s (m_Dependencies (m_Suites env ! s)) (r_result st)
        (r_connector st) (r_map st) (call_OnSuiteBegin ctl s (r_world st))"
  have sN: "s < length (m_Suites env)"
    using assms by (auto simp: RunSuites_step_def split: if_splits)
  obtain chk m1 ws1 where chk: "?chk = Inr (chk, m1, ws1)"
    using assms sN by (cases ?chk) (auto simp: RunSuites_step_def)
  obtain suiteID m2 where mi: "map_index m1 (m_Name (m_Info (m_Suites env ! s))) = (suiteID, m2)"
    by (cases "map_index m1 (m_Name (m_Info (m_Suites env ! s)))")
  show thesis
  proof (cases chk)
    case None
    obtain ok sr ws2 where run:
      "Suite_Run ctl s (m_Suites env ! s) (SuiteResult_ctor s) ws1 = Some (ok, sr, ws2)"
      using assms sN chk None
      by (cases "Suite_Run ctl s (m_Suites env ! s) (SuiteResult_ctor s) ws1")
        (auto simp: RunSuites_step_def)
    have "p = ok \<and> suiteID < length (r_connector st) \<and>
        st' = \<lparr>r_map = m2, r_result = EnvironmentResult_AddResult sr (r_result st),
          r_connector = (r_connector st)[suiteID := length (m_SuiteResults (r_result st))],
          r_world = call_OnSuiteEnd ctl sr ws2\<rparr>"
      using assms by (auto simp: RunSuites_step_def sN chk None run mi split: if_splits)
    then have r: "p = ok" "suiteID < length (r_connector st)"
        "st' = \<lparr>r_map = m2, r_result = EnvironmentResult_AddResult sr (r_result st),
          r_connector = (r_connector st)[suiteID := length (m_SuiteResults (r_result st))],
          r_world = call_OnSuiteEnd ctl sr ws2\<rparr>"
      by simp_all
    show ?thesis
    proof (rule that [OF sN chk _ mi r(2,3)])
      show "(chk = None \<and> Suite_Run ctl s (m_Suites env ! s) (SuiteResult_ctor s) ws1
            = Some (p, sr, ws2)) \<or>
          (chk = Some p \<and> sr = SetTotalResult Unknown (SuiteResult_ctor s) \<and> ws2 = ws1)"
        using None run r(1) by simp
    qed
  next
    case (Some q)
    have "p = q \<and> suiteID < length (r_connector st) \<and>
        st' = \<lparr>r_map = m2,
          r_result = EnvironmentResult_AddResult (SetTotalResult Unknown (SuiteResult_ctor s))
            (r_result st),
          r_connector = (r_connector st)[suiteID := length (m_SuiteResults (r_result st))],
          r_world = call_OnSuiteEnd ctl (SetTotalResult Unknown (SuiteResult_ctor s)) ws1\<rparr>"
      using assms by (auto simp: RunSuites_step_def sN chk Some mi split: if_splits)
    then have r: "p = q" "suiteID < length (r_connector st)"
        "st' = \<lparr>r_map = m2,
          r_result = EnvironmentResult_AddResult (SetTotalResult Unknown (SuiteResult_ctor s))
            (r_result st),
          r_connector = (r_connector st)[suiteID := length (m_SuiteResults (r_result st))],
          r_world = call_OnSuiteEnd ctl (SetTotalResult Unknown (SuiteResult_ctor s)) ws1\<rparr>"
      by simp_all
    show ?thesis
    proof (rule that [OF sN chk _ mi r(2,3)])
      show "(chk = None \<and> Suite_Run ctl s (m_Suites env ! s) (SuiteResult_ctor s) ws1
            = Some (p, SetTotalResult Unknown (SuiteResult_ctor s), ws1)) \<or>
          (chk = Some p \<and> SetTotalResult Unknown (SuiteResult_ctor s)
            = SetTotalResult Unknown (SuiteResult_ctor s) \<and> ws1 = ws1)"
        using Some r(1) by simp
    qed
  qed
qed

lemma RunSuites_step_inv:
  assumes wf: "wf_env env"
    and named: "\<forall>s<length (m_Suites env). m_SuiteMap env (name_of env s) \<noteq> None"
    and res: "deps_resolve env"
    and inv: "run_inv env pre st"
    and step: "RunSuites_step env ctl s st = Some (Inr (p, st'))"
  shows "run_inv env (pre @ [s]) st'"
proof -
  have sN: "s < length (m_Suites env)"
    using step by (auto simp: RunSuites_step_def split: if_splits)
  have m: "r_map st = m_SuiteMap env" and lc: "length (r_connector st) = length (m_Suites env)"
    and rs: "map m_Suite (m_SuiteResults (r_result st)) = pre"
    using inv by (simp_all add: run_inv_def)
  have dr: "\<forall>d\<in>set (m_Dependencies (m_Suites env ! s)). r_map st d \<noteq> None"
    using deps_resolveD [OF res sN] m by auto
  from step sN obtain chk m1 ws1 where chk:
    "CheckDependencies_loop ctl s (m_Dependencies (m_Suites env ! s)) (r_result st)
        (r_connector st) (r_map st) (call_OnSuiteBegin ctl s (r_world st)) = Inr (chk, m1, ws1)"
    by (auto simp: RunSuites_step_def split: sum.splits)
  have m1: "m1 = m_SuiteMap env"
    using CheckDependencies_loop_map [OF dr chk] m by simp
  obtain i where i: "m_SuiteMap env (name_of env s) = Some i"
    using named sN by auto
  have iN: "i < length (m_Suites env)" using wf i by (auto simp: wf_env_def)
  have mi: "map_index m1 (m_Name (m_Info (m_Suites env ! s))) = (i, m_SuiteMap env)"
    using i m1 by (simp add: map_index_def name_of_def)
  from RunSuites_step_elim [OF step] obtain chk' m1' ws1' sr ws2 suiteID m2 where e:
    "CheckDependencies_loop ctl s (m_Dependencies (m_Suites env ! s)) (r_result st)
        (r_connector st) (r_map st) (call_OnSuiteBegin ctl s (r_world st)) = Inr (chk', m1', ws1')"
    "(chk' = None \<and> Suite_Run ctl s (m_Suites env ! s) (SuiteResult_ctor s) ws1' = Some (p, sr, ws2)) \<or>
     (chk' = Some p \<and> sr = SetTotalResult Unknown (SuiteResult_ctor s) \<and> ws2 = ws1')"
    "map_index m1' (m_Name (m_Info (m_Suites env ! s))) = (suiteID, m2)"
    "st' = \<lparr>r_map = m2, r_result = EnvironmentResult_AddResult sr (r_result st),
        r_connector = (r_connector st)[suiteID := length (m_SuiteResults (r_result st))],
        r_world = call_OnSuiteEnd ctl sr ws2\<rparr>"
    by metis
  have same: "m1' = m1" using e(1) chk by simp
  have sr: "m_Suite sr = s"
    using e(2) by (auto simp: SetTotalResult_def SuiteResult_ctor_def dest: Suite_Run_suite)
  have st': "st' = \<lparr>r_map = m_SuiteMap env,
        r_result = EnvironmentResult_AddResult sr (r_result st),
        r_connector = (r_connector st)[i := length (m_SuiteResults (r_result st))],
        r_world = call_OnSuiteEnd ctl sr ws2\<rparr>"
    using e(3,4) mi same by simp
  have lp: "length (m_SuiteResults (r_result st)) = length pre"
    using rs by (metis length_map)
  have rs': "map m_Suite (m_SuiteResults (r_result st')) = pre @ [s]"
    using rs sr by (simp add: st' EnvironmentResult_AddResult_def ResultObject_AddResult_def)
  have conn: "r_connector st' = (r_connector st)[i := length pre]"
    by (simp add: st' lp)
  have key: "r_connector st' ! j < length (pre @ [s]) \<and>
      m_SuiteMap env (name_of env ((pre @ [s]) ! (r_connector st' ! j))) = Some j"
    if ex: "\<exists>k<length (pre @ [s]). m_SuiteMap env (name_of env ((pre @ [s]) ! k)) = Some j"
    for j
  proof (cases "j = i")
    case True
    then show ?thesis using iN lc i by (simp add: conn)
  next
    case False
    from ex obtain k where k: "k < length (pre @ [s])"
      "m_SuiteMap env (name_of env ((pre @ [s]) ! k)) = Some j" by blast
    have "k < length pre"
    proof (rule ccontr)
      assume "\<not> k < length pre"
      then have "k = length pre" using k(1) by simp
      then show False using k(2) i False by simp
    qed
    then have "\<exists>k<length pre. m_SuiteMap env (name_of env (pre ! k)) = Some j"
      using k(2) by (auto simp: nth_append)
    then have old: "r_connector st ! j < length pre"
      "m_SuiteMap env (name_of env (pre ! (r_connector st ! j))) = Some j"
      using inv by (simp_all add: run_inv_def)
    then show ?thesis using False by (simp add: conn nth_append)
  qed
  show ?thesis
    unfolding run_inv_def using rs' key lc by (simp add: st')
qed

lemma RunSuites_loop_inv:
  assumes "wf_env env"
    and "\<forall>s<length (m_Suites env). m_SuiteMap env (name_of env s) \<noteq> None"
    and "deps_resolve env"
  shows "\<lbrakk>run_inv env pre st; RunSuites_loop env ctl suites st = Some (Inr (True, st'))\<rbrakk>
    \<Longrightarrow> run_inv env (pre @ suites) st'"
proof (induction suites arbitrary: pre st)
  case Nil
  then show ?case by simp
next
  case (Cons s suites)
  from Cons.prems(2) obtain st1 where
    step: "RunSuites_step env ctl s st = Some (Inr (True, st1))"
    and rest: "RunSuites_loop env ctl suites st1 = Some (Inr (True, st'))"
    by (auto split: option.splits sum.splits if_splits)
  have "run_inv env (pre @ [s]) st1"
    using RunSuites_step_inv [OF assms Cons.prems(1) step] .
  from Cons.IH [OF this rest] show ?case by simp
qed

lemma run_inv_init: "run_inv env [] (run_init env EnvironmentResult_ctor ws)"
  by (simp add: run_inv_def run_init_def EnvironmentResult_ctor_def)

lemma registered_named:
  assumes "env = (register_all ss)\<lparr>m_Filter := fs, m_Callback := cb\<rparr>"
  shows "\<forall>s<length (m_Suites env). m_SuiteMap env (name_of env s) \<noteq> None"
    and "m_SuiteMap env n = Some i \<Longrightarrow> name_of env i = n"
  using assms find_index_name_mem [of _ ss]
  by (auto simp: name_of_def register_all_map find_index_name_Some)

text \<open>
  C2. An environment made by registering the suites \<open>ss\<close> (any filters, any policy),
  whose dependency names all resolve and whose dependency graph is acyclic. Then
  resolution succeeds with an order without repetition, made of registered suites
  (all of them when no filter is installed). For every edge "\<open>a\<close> declares a name that
  resolves to \<open>b\<close>" and every place of \<open>a\<close> in the order, \<open>b\<close> stands before \<open>a\<close>.
  And whenever \<open>RunSuites\<close> has processed the suites before \<open>a\<close> without aborting, so
  that it goes on with \<open>a\<close> in state \<open>st\<close>: a result of \<open>b\<close> is in the environment
  result; the index that \<open>a\<close>'s \<open>CheckDependencies\<close> reads for \<open>b\<close>,
  \<open>resultConnector[b]\<close>, is that of a recorded result; that result belongs to a suite
  of \<open>b\<close>'s name, hence to \<open>b\<close> itself when names are not shared.
\<close>

theorem dependencies_before_dependents:
  assumes env: "env = (register_all ss)\<lparr>m_Filter := fs, m_Callback := cb\<rparr>"
    and res: "deps_resolve env"
    and acyc: "acyclic (dep_edges env)"
  shows "\<exists>order ws'. SolveDependencies env ctl ws = Some (Inr (True, order, ws')) \<and>
      distinct order \<and> set order \<subseteq> {..<length ss} \<and> (fs = [] \<longrightarrow> set order = {..<length ss}) \<and>
      (\<forall>a b pre post. (a, b) \<in> dep_edges env \<and> order = pre @ a # post \<longrightarrow>
         b \<in> set pre \<and>
         (\<forall>w st. RunSuites env ctl pre EnvironmentResult_ctor w = Some (Inr (True, st)) \<longrightarrow>
            RunSuites env ctl order EnvironmentResult_ctor w = RunSuites_loop env ctl (a # post) st \<and>
            b \<in> set (map m_Suite (m_SuiteResults (r_result st))) \<and>
            r_connector st ! b < length (m_SuiteResults (r_result st)) \<and>
            name_of env (m_Suite (m_SuiteResults (r_result st) ! (r_connector st ! b)))
              = name_of env b \<and>
            (distinct (map (\<lambda>s. m_Name (m_Info s)) ss) \<longrightarrow>
               m_Suite (m_SuiteResults (r_result st) ! (r_connector st ! b)) = b)))"
proof -
  have wf: "wf_env env" unfolding env by (rule wf_env_registered)
  note named = registered_named [OF env]
  have suites: "m_Suites env = ss" by (simp add: env)
  have nofilter: "fs = [] \<Longrightarrow> m_Filter env = []" by (simp add: env)
  from SolveDependencies_acyclic [OF wf res acyc, of ctl ws]
  obtain order ws' where o: "SolveDependencies env ctl ws = Some (Inr (True, order, ws'))"
      "distinct order" "ordered env order" "set order \<subseteq> {..<length ss}"
      "fs = [] \<longrightarrow> set order = {..<length ss}"
    using suites nofilter by auto
  have main: "b \<in> set pre \<and>
         (\<forall>w st. RunSuites env ctl pre EnvironmentResult_ctor w = Some (Inr (True, st)) \<longrightarrow>
            RunSuites env ctl order EnvironmentResult_ctor w = RunSuites_loop env ctl (a # post) st \<and>
            b \<in> set (map m_Suite (m_SuiteResults (r_result st))) \<and>
            r_connector st ! b < length (m_SuiteResults (r_result st)) \<and>
            name_of env (m_Suite (m_SuiteResults (r_result st) ! (r_connector st ! b)))
              = name_of env b \<and>
            (distinct (map (\<lambda>s. m_Name (m_Info s)) ss) \<longrightarrow>
               m_Suite (m_SuiteResults (r_result st) ! (r_connector st ! b)) = b))"
    if edge: "(a, b) \<in> dep_edges env" and split: "order = pre @ a # post" for a b pre post
  proof -
    have bpre: "b \<in> set pre" using ordered_before [OF o(3) split edge] .
    from edge obtain d where d: "m_SuiteMap env d = Some b"
      by (auto simp: dep_edges_def)
    have bN: "b < length ss" using wf d suites by (auto simp: wf_env_def)
    have nb: "m_SuiteMap env (name_of env b) = Some b"
      using named(2) [OF d] d by simp
    have run: "RunSuites env ctl order EnvironmentResult_ctor w = RunSuites_loop env ctl (a # post) st \<and>
            b \<in> set (map m_Suite (m_SuiteResults (r_result st))) \<and>
            r_connector st ! b < length (m_SuiteResults (r_result st)) \<and>
            name_of env (m_Suite (m_SuiteResults (r_result st) ! (r_connector st ! b)))
              = name_of env b \<and>
            (distinct (map (\<lambda>s. m_Name (m_Info s)) ss) \<longrightarrow>
               m_Suite (m_SuiteResults (r_result st) ! (r_connector st ! b)) = b)"
      if pre: "RunSuites env ctl pre EnvironmentResult_ctor w = Some (Inr (True, st))" for w st
    proof -
      let ?st0 = "run_init env EnvironmentResult_ctor w"
      let ?rs = "m_SuiteResults (r_result st)"
      let ?c = "r_connector st ! b"
      have l: "RunSuites_loop env ctl pre ?st0 = Some (Inr (True, st))"
        using pre by (simp add: RunSuites_def)
      have dec: "RunSuites env ctl order EnvironmentResult_ctor w
          = RunSuites_loop env ctl (a # post) st"
        unfolding RunSuites_def split RunSuites_loop_append [of env ctl pre "a # post"] l by simp
      have inv: "run_inv env pre st"
        using RunSuites_loop_inv [OF wf named(1) res run_inv_init l] by simp
      have rs: "map m_Suite ?rs = pre" using inv by (simp add: run_inv_def)
      then have len: "length ?rs = length pre" by (metis length_map)
      from bpre obtain k where k: "k < length pre" "pre ! k = b"
        by (auto simp: in_set_conv_nth)
      then have "\<exists>k<length pre. m_SuiteMap env (name_of env (pre ! k)) = Some b"
        using nb by auto
      then have c: "?c < length pre" "m_SuiteMap env (name_of env (pre ! ?c)) = Some b"
        using inv by (simp_all add: run_inv_def)
      have read: "m_Suite (?rs ! ?c) = pre ! ?c"
        using rs c(1) len by (metis nth_map)
      have same_name: "name_of env (pre ! ?c) = name_of env b"
        using named(2) [OF c(2)] by simp
      have "pre ! ?c \<in> set order" using c(1) split by simp
      then have "pre ! ?c < length ss" using o(4) by auto
      then have "distinct (map (\<lambda>s. m_Name (m_Info s)) ss) \<Longrightarrow> pre ! ?c = b"
        using same_name bN suites
        by (auto simp: name_of_def distinct_conv_nth)
      then show ?thesis
        using dec rs bpre c(1) len read same_name by simp
    qed
    show ?thesis using bpre run by blast
  qed
  show ?thesis
    using o(1,2,4,5) main by blast
qed

lemma env_chain_edges: "dep_edges env_chain = {(0, 1)}"
proof -
  have m: "m_SuiteMap env_chain ''B'' = Some 1"
    by (simp add: env_chain_def register_all_map plain_suite_def)
  have s: "m_Suites env_chain = [plain_suite ''A'' [''B''], plain_suite ''B'' []]"
    by (simp add: env_chain_def)
  show ?thesis
    unfolding dep_edges_def s using m
    by (auto simp: plain_suite_def less_Suc_eq numeral_2_eq_2)
qed

lemma env_chain_acyclic: "acyclic (dep_edges env_chain)"
  unfolding env_chain_edges
  by (rule acyclicI_order [where f = "\<lambda>x::nat. 1 - x"]) auto

theorem dependencies_before_dependents_witness:
  "deps_resolve env_chain \<and> acyclic (dep_edges env_chain) \<and>
   SolveDependencies env_chain ConsoleCallback unit_world = Some (Inr (True, [1, 0], unit_world)) \<and>
   (0, 1) \<in> dep_edges env_chain \<and>
   RunSuites env_chain ConsoleCallback [1] EnvironmentResult_ctor unit_world
     = Some (Inr (True, chain_after_B)) \<and>
   RunSuites env_chain ConsoleCallback [1, 0] EnvironmentResult_ctor unit_world
     = RunSuites_loop env_chain ConsoleCallback [0] chain_after_B \<and>
   r_connector chain_after_B ! 1 < length (m_SuiteResults (r_result chain_after_B)) \<and>
   m_Suite (m_SuiteResults (r_result chain_after_B) ! (r_connector chain_after_B ! 1)) = 1"
proof -
  have r: "deps_resolve env_chain"
    by (simp add: deps_resolve_def env_chain_def register_all_map plain_suite_def)
  have e: "(0, 1) \<in> dep_edges env_chain" by (simp add: env_chain_edges)
  have s: "SolveDependencies env_chain ConsoleCallback unit_world
      = Some (Inr (True, [1, 0], unit_world))"
    by code_simp
  have p: "RunSuites env_chain ConsoleCallback [1] EnvironmentResult_ctor unit_world
     = Some (Inr (True, chain_after_B))"
    by (simp add: RunSuites_def RunSuites_step_def run_init_def env_chain_def register_all_map
        plain_suite_def map_index_def Suite_Run_def ExecFunction_def SuiteFunction_ctor_def
        call_OnSuiteBegin_def call_OnSuiteEnd_def ConsoleCallback_def emit_def unit_world_def
        SuiteResult_ctor_def EnvironmentResult_ctor_def EnvironmentResult_AddResult_def
        ResultObject_AddResult_def AddResult_total_def chain_after_B_def)
  have d: "distinct (map (\<lambda>s. m_Name (m_Info s)) [plain_suite ''A'' [''B''], plain_suite ''B'' []])"
    by (simp add: plain_suite_def)
  have "\<exists>order ws'. SolveDependencies env_chain ConsoleCallback unit_world
        = Some (Inr (True, order, ws')) \<and>
      distinct order \<and>
      set order \<subseteq> {..<length [plain_suite ''A'' [''B''], plain_suite ''B'' []]} \<and>
      (([]::unit Filter list) = [] \<longrightarrow> set order = {..<length [plain_suite ''A'' [''B''], plain_suite ''B'' []]}) \<and>
      (\<forall>a b pre post. (a, b) \<in> dep_edges env_chain \<and> order = pre @ a # post \<longrightarrow>
         b \<in> set pre \<and>
         (\<forall>w st. RunSuites env_chain ConsoleCallback pre EnvironmentResult_ctor w
              = Some (Inr (True, st)) \<longrightarrow>
            RunSuites env_chain ConsoleCallback order EnvironmentResult_ctor w
              = RunSuites_loop env_chain ConsoleCallback (a # post) st \<and>
            b \<in> set (map m_Suite (m_SuiteResults (r_result st))) \<and>
            r_connector st ! b < length (m_SuiteResults (r_result st)) \<and>
            name_of env_chain (m_Suite (m_SuiteResults (r_result st) ! (r_connector st ! b)))
              = name_of env_chain b \<and>
            (distinct (map (\<lambda>s. m_Name (m_Info s))
                [plain_suite ''A'' [''B''], plain_suite ''B'' []]) \<longrightarrow>
               m_Suite (m_SuiteResults (r_result st) ! (r_connector st ! b)) = b)))"
    by (rule dependencies_before_dependents [OF env_chain_def r env_chain_acyclic])
  then obtain order ws' where
    o: "SolveDependencies env_chain ConsoleCallback unit_world = Some (Inr (True, order, ws'))"
    and all: "\<forall>a b pre post. (a, b) \<in> dep_edges env_chain \<and> order = pre @ a # post \<longrightarrow>
         b \<in> set pre \<and>
         (\<forall>w st. RunSuites env_chain ConsoleCallback pre EnvironmentResult_ctor w
              = Some (Inr (True, st)) \<longrightarrow>
            RunSuites env_chain ConsoleCallback order EnvironmentResult_ctor w
              = RunSuites_loop env_chain ConsoleCallback (a # post) st \<and>
            b \<in> set (map m_Suite (m_SuiteResults (r_result st))) \<and>
            r_connector st ! b < length (m_SuiteResults (r_result st)) \<and>
            name_of env_chain (m_Suite (m_SuiteResults (r_result st) ! (r_connector st ! b)))
              = name_of env_chain b \<and>
            (distinct (map (\<lambda>s. m_Name (m_Info s))
                [plain_suite ''A'' [''B''], plain_suite ''B'' []]) \<longrightarrow>
               m_Suite (m_SuiteResults (r_result st) ! (r_connector st ! b)) = b))"
    by (elim exE conjE)
  have order: "order = [1] @ 0 # []" using o s by simp
  note A = all [rule_format, of 0 1 "[1]" "[]", OF conjI [OF e order]]
  note B = A [THEN conjunct2, rule_format, OF p]
  show ?thesis using B d r env_chain_acyclic s e p by (simp add: order)
qed


lemma trace_emit [simp]: "trace (emit e u ws) = trace ws @ [e]"
  by (simp add: emit_def)


lemma call_OnException_events:
  "call_OnException ctl i ws = (a, ws') \<Longrightarrow> trace ws' = trace ws @ [EvException i a]"
  by (auto simp: call_OnException_def split: prod.splits)

lemma call_OnAssert_events:
  "call_OnAssert ctl r ws = (r', ws') \<Longrightarrow> trace ws' = trace ws @ [EvAssert r']"
  by (auto simp: call_OnAssert_def split: prod.splits)

lemma call_OnTestEnd_events:
  "call_OnTestEnd ctl r ws = (again, ws') \<Longrightarrow> trace ws' = trace ws @ [EvTestEnd r again]"
  by (auto simp: call_OnTestEnd_def split: prod.splits)










section \<open>Abort decisions\<close>

text \<open>
  C6, older revision. Two suites in the order \<open>[First, Second]\<close>; the init fixture of
  \<open>First\<close> throws and the policy answers \<open>Abort\<close>. The older \<open>RunSuites\<close> records
  \<open>First\<close> and then begins \<open>Second\<close> all the same, and returns true. The newer
  \<open>RunSuites\<close>, on the same input, returns false after recording \<open>First\<close>.
\<close>

theorem RunSuites_r1_runs_on_after_Abort:
  "flag_and_log_r1
     (RunSuites_r1 env_abort abort_policy [0, 1] (EnvironmentResult_ctor, unit_world)) =
     Some (True,
       [EvSuiteBegin 0, EvFixture (m_FixInfo throwing_fixture),
        EvException (m_FixInfo throwing_fixture) Abort, EvSuiteEnd 0,
        EvSuiteBegin 1, EvSuiteEnd 1]) \<and>
   flag_and_log (RunSuites env_abort abort_policy [0, 1] EnvironmentResult_ctor unit_world) =
     Some (False,
       [EvSuiteBegin 0, EvFixture (m_FixInfo throwing_fixture),
        EvException (m_FixInfo throwing_fixture) Abort, EvSuiteEnd 0]) \<and>
   SolveDependencies env_abort abort_policy unit_world = Some (Inr (True, [0, 1], unit_world))"
  by code_simp

text \<open>
  The newer revision: how an \<open>Abort\<close> decision travels from the place where it is
  taken to the loop of \<open>RunSuites\<close>.
\<close>

lemma flow_ok_Nil [simp]: "flow_ok [] stop \<longleftrightarrow> \<not> stop"
  by (simp add: flow_ok_def)

lemma flow_ok_plain:
  "\<lbrakk>list_all harmless evs; \<not> list_ex is_Abort evs; \<not> list_ex is_EvSuiteBegin evs\<rbrakk>
   \<Longrightarrow> flow_ok evs False"
  by (auto simp: flow_ok_def list_ex_iff)

lemma flow_ok_seq:
  assumes first: "flow_ok evs1 s1"
    and second: "(evs2 = [] \<and> s = s1) \<or> (\<not> s1 \<and> flow_ok evs2 s)"
  shows "flow_ok (evs1 @ evs2) s"
proof -
  have abort: "post = [] \<and> s" if eq: "evs1 @ evs2 = pre @ e # post" and e: "is_Abort e"
    for pre e post
  proof -
    from eq consider (left) us where "evs1 = pre @ e # us" "post = us @ evs2"
      | (right) us where "pre = evs1 @ us" "evs2 = us @ e # post"
      by (auto simp: append_eq_append_conv2 append_eq_Cons_conv Cons_eq_append_conv)
    then show ?thesis
    proof cases
      case left
      then have "us = [] \<and> s1" using first e by (auto simp: flow_ok_def)
      with left second show ?thesis by auto
    next
      case right
      from second show ?thesis
      proof
        assume "evs2 = [] \<and> s = s1"
        with right show ?thesis by simp
      next
        assume "\<not> s1 \<and> flow_ok evs2 s"
        with right e show ?thesis by (auto simp: flow_ok_def)
      qed
    qed
  qed
  have calm: "\<not> s" if "list_all harmless (evs1 @ evs2)"
    using that first second by (auto simp: flow_ok_def)
  have inner: "\<not> list_ex is_EvSuiteBegin (evs1 @ evs2)"
    using first second by (auto simp: flow_ok_def)
  show ?thesis
    unfolding flow_ok_def using abort calm inner by blast
qed

lemma flow_ok_single:
  "flow_ok [e] stop \<longleftrightarrow>
     (is_Abort e \<longrightarrow> stop) \<and> (harmless e \<longrightarrow> \<not> stop) \<and> \<not> is_EvSuiteBegin e"
  by (auto simp: flow_ok_def append_eq_Cons_conv Cons_eq_append_conv)

lemma flow_ok_Cons_plain:
  "\<lbrakk>harmless e; \<not> is_Abort e; \<not> is_EvSuiteBegin e; flow_ok evs s\<rbrakk> \<Longrightarrow> flow_ok (e # evs) s"
  using flow_ok_seq [of "[e]" False evs s] by (simp add: flow_ok_single)

lemma flow_ok_snoc_plain:
  "\<lbrakk>harmless e; \<not> is_Abort e; \<not> is_EvSuiteBegin e; flow_ok evs False\<rbrakk>
   \<Longrightarrow> flow_ok (evs @ [e]) False"
  using flow_ok_seq [of evs False "[e]" False] by (simp add: flow_ok_single)

lemma ExecFunction_flow:
  assumes "ExecFunction ctl f ws = (r, ws')"
  shows "\<exists>evs. trace ws' = trace ws @ evs \<and> flow_ok evs (r = Some False)"
proof (cases "m_FixFunc f")
  case None
  then show ?thesis using assms by (auto simp: ExecFunction_def)
next
  case (Some g)
  obtain threw u where g: "g (user ws) = (threw, u)" by (cases "g (user ws)")
  let ?ws1 = "emit (EvFixture (m_FixInfo f)) u ws"
  show ?thesis
  proof (cases threw)
    case False
    then have "ws' = ?ws1" "r = None" using assms Some g by (simp_all add: ExecFunction_def)
    then have "trace ws' = trace ws @ [EvFixture (m_FixInfo f)] \<and>
        flow_ok [EvFixture (m_FixInfo f)] (r = Some False)"
      by (simp add: flow_ok_single)
    then show ?thesis by blast
  next
    case True
    obtain a ws2 where c: "call_OnException ctl (m_FixInfo f) ?ws1 = (a, ws2)"
      by (cases "call_OnException ctl (m_FixInfo f) ?ws1")
    have res: "ws' = ws2" "r = Some False \<longleftrightarrow> \<not> (a = Ignore \<or> a = Procceed \<or> a = AbortCurrent)"
      using assms Some g True c by (auto simp: ExecFunction_def split: if_splits)
    have t: "trace ws' = trace ws @ ([EvFixture (m_FixInfo f)] @ [EvException (m_FixInfo f) a])"
      using call_OnException_events [OF c] res(1) by simp
    have "flow_ok ([EvFixture (m_FixInfo f)] @ [EvException (m_FixInfo f) a]) (r = Some False)"
      by (rule flow_ok_seq [where ?s1.0 = False]) (auto simp: flow_ok_single res(2))
    with t show ?thesis by blast
  qed
qed

lemma calm_simps [simp]:
  "calm []"
  "calm (evs @ evs') \<longleftrightarrow> calm evs \<and> calm evs'"
  "calm (e # evs) \<longleftrightarrow> harmless e \<and> \<not> is_Abort e \<and> \<not> is_EvSuiteBegin e \<and> calm evs"
  by (auto simp: calm_def)

lemma calm_flow_ok: "calm evs \<Longrightarrow> flow_ok evs False"
  by (rule flow_ok_plain) (auto simp: calm_def list_all_iff list_ex_iff)

lemma flow_ok_calm_seq: "\<lbrakk>calm evs1; flow_ok evs2 s\<rbrakk> \<Longrightarrow> flow_ok (evs1 @ evs2) s"
  by (rule flow_ok_seq [where ?s1.0 = False]) (simp_all add: calm_flow_ok)

lemma TestContext_fold_calm:
  "fold (TestContext_AddResult ctl) calls (res, ws) = (res', ws') \<Longrightarrow>
     \<exists>evs. trace ws' = trace ws @ evs \<and> calm evs"
proof (induction calls arbitrary: res ws)
  case Nil
  then show ?case by simp
next
  case (Cons c calls)
  obtain res1 ws1 where s: "TestContext_AddResult ctl c (res, ws) = (res1, ws1)"
    by (cases "TestContext_AddResult ctl c (res, ws)")
  then obtain r where t1: "trace ws1 = trace ws @ [EvAssert r]"
    by (auto simp: TestContext_AddResult_def split: prod.splits dest: call_OnAssert_events)
  from Cons.prems s have "fold (TestContext_AddResult ctl) calls (res1, ws1) = (res', ws')"
    by simp
  from Cons.IH [OF this] obtain evs where "trace ws' = trace ws1 @ evs" "calm evs" by blast
  then have "trace ws' = trace ws @ (EvAssert r # evs) \<and> calm (EvAssert r # evs)"
    using t1 by simp
  then show ?case by blast
qed

lemma Test_body_calm:
  assumes "Test_body ctl tp t res ws = (threw, res1, ws1)"
  shows "\<exists>evs. trace ws1 = trace ws @ evs \<and> calm evs"
proof -
  obtain calls thr u where b: "m_Func t (user ws) = (calls, thr, u)"
    by (cases "m_Func t (user ws)") auto
  have "fold (TestContext_AddResult ctl) calls (res, emit (EvBody tp res) u ws) = (res1, ws1)"
    using assms b by (auto simp: Test_body_def split: prod.splits)
  from TestContext_fold_calm [OF this] obtain evs where
    "trace ws1 = trace ws @ (EvBody tp res # evs)" "calm evs" by auto
  then have "trace ws1 = trace ws @ (EvBody tp res # evs) \<and> calm (EvBody tp res # evs)"
    by simp
  then show ?thesis by blast
qed

lemma Test_Run_flow:
  assumes "Test_Run ctl tp t res ws = (p, res', ws')"
  shows "\<exists>evs. trace ws' = trace ws @ evs \<and> flow_ok evs (\<not> p)"
proof -
  obtain threw res1 ws1 where b: "Test_body ctl tp t res ws = (threw, res1, ws1)"
    by (cases "Test_body ctl tp t res ws") auto
  from Test_body_calm [OF b] obtain evs where e: "trace ws1 = trace ws @ evs" "calm evs"
    by blast
  show ?thesis
  proof (cases threw)
    case False
    then have "ws' = ws1" "p" using assms b by (simp_all add: Test_Run_def)
    then show ?thesis using e calm_flow_ok by auto
  next
    case True
    obtain a ws2 where c: "call_OnException ctl (m_TestInfo t) ws1 = (a, ws2)"
      by (cases "call_OnException ctl (m_TestInfo t) ws1")
    have res: "ws' = ws2" "\<not> p \<longleftrightarrow> a = Abort"
      using assms b True c by (auto simp: Test_Run_def split: if_splits)
    have t: "trace ws' = trace ws @ (evs @ [EvException (m_TestInfo t) a])"
      using call_OnException_events [OF c] e(1) res(1) by simp
    have "flow_ok [EvException (m_TestInfo t) a] (\<not> p)"
      using res(2) by (auto simp: flow_ok_single)
    then have "flow_ok (evs @ [EvException (m_TestInfo t) a]) (\<not> p)"
      using e(2) by (rule flow_ok_calm_seq [rotated])
    with t show ?thesis by blast
  qed
qed

text \<open>One pass through the body of the repeat loop.\<close>

lemma Suite_attempt_flow:
  assumes "Suite_attempt ctl suite tp t ws = (out, ws')"
  shows "\<exists>evs. trace ws' = trace ws @ evs \<and> flow_ok evs (out = Inl False)"
proof -
  obtain r1 ws1 where en: "ExecFunction ctl (m_Enter suite) ws = (r1, ws1)"
    by (cases "ExecFunction ctl (m_Enter suite) ws")
  from ExecFunction_flow [OF en] obtain e1 where
    e1: "trace ws1 = trace ws @ e1" "flow_ok e1 (r1 = Some False)" by blast
  show ?thesis
  proof (cases r1)
    case (Some q)
    then have "out = Inl q" "ws' = ws1" using assms en by (simp_all add: Suite_attempt_def)
    then show ?thesis using e1 Some by auto
  next
    case None
    obtain p r ws2 where run: "Test_Run ctl tp t (TestResult_ctor tp) ws1 = (p, r, ws2)"
      by (cases "Test_Run ctl tp t (TestResult_ctor tp) ws1") auto
    from Test_Run_flow [OF run] obtain e2 where
      e2: "trace ws2 = trace ws1 @ e2" "flow_ok e2 (\<not> p)" by blast
    show ?thesis
    proof (cases p)
      case False
      then have o: "out = Inl False" "ws' = ws2"
        using assms en None run by (simp_all add: Suite_attempt_def)
      have "flow_ok (e1 @ e2) (out = Inl False)"
        using e1(2) e2(2) None False o(1) by (intro flow_ok_seq [where ?s1.0 = False]) simp_all
      moreover have "trace ws' = trace ws @ (e1 @ e2)" using e1(1) e2(1) o(2) by simp
      ultimately show ?thesis by blast
    next
      case True
      obtain r3 ws3 where lv: "ExecFunction ctl (m_Leave suite) ws2 = (r3, ws3)"
        by (cases "ExecFunction ctl (m_Leave suite) ws2")
      from ExecFunction_flow [OF lv] obtain e3 where
        e3: "trace ws3 = trace ws2 @ e3" "flow_ok e3 (r3 = Some False)" by blast
      have o: "ws' = ws3" "out = Inl False \<longleftrightarrow> r3 = Some False"
        using assms en None run True lv
        by (auto simp: Suite_attempt_def split: option.splits)
      have "flow_ok (e2 @ e3) (out = Inl False)"
        using e2(2) e3(2) True o(2) by (intro flow_ok_seq [where ?s1.0 = False]) simp_all
      then have "flow_ok (e1 @ (e2 @ e3)) (out = Inl False)"
        using e1(2) None by (intro flow_ok_seq [where ?s1.0 = False]) simp_all
      moreover have "trace ws' = trace ws @ (e1 @ (e2 @ e3))"
        using e1(1) e2(1) e3(1) o(1) by simp
      ultimately show ?thesis by blast
    qed
  qed
qed

lemma Suite_do_while_flow:
  assumes "Suite_do_while ctl suite tp t ws = Some y"
  shows "loop_flow ws y"
proof (rule Suite_do_while.raw_induct [where P = "\<lambda>ctl suite tp t ws y. loop_flow ws y",
      OF _ assms])
  fix loop :: "'a ControlCallback \<Rightarrow> 'a Suite \<Rightarrow> test_ptr \<Rightarrow> 'a Test \<Rightarrow> 'a world
      \<Rightarrow> ((bool + TestResult) \<times> 'a world) option"
    and ctl suite tp t ws y
  assume IH: "\<And>ctl suite tp t ws y. loop ctl suite tp t ws = Some y \<Longrightarrow> loop_flow ws y"
    and step: "(case Suite_attempt ctl suite tp t ws of
        (Inl procceed, ws1) \<Rightarrow> Some (Inl procceed, ws1)
      | (Inr testResult, ws1) \<Rightarrow>
          (case call_OnTestEnd ctl testResult ws1 of
             (again, ws2) \<Rightarrow>
               if again then loop ctl suite tp t ws2 else Some (Inr testResult, ws2))) = Some y"
  obtain o1 ws1 where at: "Suite_attempt ctl suite tp t ws = (o1, ws1)"
    by (cases "Suite_attempt ctl suite tp t ws")
  from Suite_attempt_flow [OF at] obtain e1 where
    e1: "trace ws1 = trace ws @ e1" "flow_ok e1 (o1 = Inl False)" by blast
  show "loop_flow ws y"
  proof (cases o1)
    case (Inl p)
    then have "y = (Inl p, ws1)" using step at by simp
    then show ?thesis using e1 Inl by (auto simp: loop_flow_def)
  next
    case (Inr r1)
    obtain again ws2 where te: "call_OnTestEnd ctl r1 ws1 = (again, ws2)"
      by (cases "call_OnTestEnd ctl r1 ws1")
    note t2 = call_OnTestEnd_events [OF te]
    have c1: "flow_ok (e1 @ [EvTestEnd r1 again]) False"
      using e1(2) Inr by (intro flow_ok_snoc_plain) simp_all
    show ?thesis
    proof (cases again)
      case False
      then have "y = (Inr r1, ws2)" using step at Inr te by simp
      moreover have "trace ws2 = trace ws @ (e1 @ [EvTestEnd r1 again])"
        using e1(1) t2 by simp
      ultimately show ?thesis using c1 by (auto simp: loop_flow_def)
    next
      case True
      then have "loop ctl suite tp t ws2 = Some y" using step at Inr te by simp
      from IH [OF this] obtain evs where
        r: "trace (snd y) = trace ws2 @ evs" "flow_ok evs (fst y = Inl False)"
        by (auto simp: loop_flow_def)
      have "flow_ok ((e1 @ [EvTestEnd r1 again]) @ evs) (fst y = Inl False)"
        by (rule flow_ok_seq [OF c1]) (simp add: r(2))
      moreover have "trace (snd y) = trace ws @ ((e1 @ [EvTestEnd r1 again]) @ evs)"
        using e1(1) t2 r(1) by simp
      ultimately show ?thesis unfolding loop_flow_def by blast
    qed
  qed
qed

lemma Suite_tests_flow:
  "Suite_tests ctl suite sid k ts res ws = Some (p, res', ws') \<Longrightarrow>
     \<exists>evs. trace ws' = trace ws @ evs \<and> flow_ok evs (p = Some False)"
proof (induction ts arbitrary: k res ws)
  case Nil
  then show ?case by simp
next
  case (Cons t ts)
  let ?ws0 = "call_OnTestBegin ctl (sid, k) ws"
  have t0: "trace ?ws0 = trace ws @ [EvTestBegin (sid, k)]"
    by (simp add: call_OnTestBegin_def)
  from Cons.prems obtain y where
    loop: "Suite_do_while ctl suite (sid, k) t ?ws0 = Some y"
    by (auto split: option.splits)
  from Suite_do_while_flow [OF loop] obtain e1 where
    e1: "trace (snd y) = trace ?ws0 @ e1" "flow_ok e1 (fst y = Inl False)"
    by (auto simp: loop_flow_def)
  obtain o1 ws1 where y: "y = (o1, ws1)" by (cases y)
  have c1: "flow_ok (EvTestBegin (sid, k) # e1) (o1 = Inl False)"
    using e1(2) y by (intro flow_ok_Cons_plain) simp_all
  have t1: "trace ws1 = trace ws @ (EvTestBegin (sid, k) # e1)"
    using e1(1) t0 y by simp
  show ?case
  proof (cases o1)
    case (Inl q)
    then have "p = Some q" "ws' = ws1" using Cons.prems loop y by simp_all
    then show ?thesis using c1 t1 Inl by auto
  next
    case (Inr r)
    then have "Suite_tests ctl suite sid (Suc k) ts (SuiteResult_AddResult r res) ws1
        = Some (p, res', ws')"
      using Cons.prems loop y by simp
    from Cons.IH [OF this] obtain evs where
      r: "trace ws' = trace ws1 @ evs" "flow_ok evs (p = Some False)" by blast
    have "flow_ok ((EvTestBegin (sid, k) # e1) @ evs) (p = Some False)"
      by (rule flow_ok_seq [OF c1]) (simp add: r(2) Inr)
    moreover have "trace ws' = trace ws @ ((EvTestBegin (sid, k) # e1) @ evs)"
      using t1 r(1) by simp
    ultimately show ?thesis by blast
  qed
qed

text \<open>\<open>Suite::Run\<close> returns false exactly on an abort of the whole run.\<close>

lemma Suite_Run_flow:
  assumes "Suite_Run ctl sid suite res ws = Some (ok, res', ws')"
  shows "\<exists>evs. trace ws' = trace ws @ evs \<and> flow_ok evs (\<not> ok)"
proof -
  obtain r1 ws1 where i: "ExecFunction ctl (m_Init suite) ws = (r1, ws1)"
    by (cases "ExecFunction ctl (m_Init suite) ws")
  from ExecFunction_flow [OF i] obtain e1 where
    e1: "trace ws1 = trace ws @ e1" "flow_ok e1 (r1 = Some False)" by blast
  show ?thesis
  proof (cases r1)
    case (Some q)
    then have "ok = q" "ws' = ws1" using assms i by (simp_all add: Suite_Run_def)
    then show ?thesis using e1 Some by auto
  next
    case None
    from assms i None obtain p res2 ws2 where
      ts: "Suite_tests ctl suite sid 0 (m_Tests suite) res ws1 = Some (p, res2, ws2)"
      by (auto simp: Suite_Run_def split: option.splits)
    from Suite_tests_flow [OF ts] obtain e2 where
      e2: "trace ws2 = trace ws1 @ e2" "flow_ok e2 (p = Some False)" by blast
    show ?thesis
    proof (cases p)
      case (Some q)
      then have o: "ok = q" "ws' = ws2" using assms i None ts by (simp_all add: Suite_Run_def)
      have "flow_ok (e1 @ e2) (\<not> ok)"
        using e2(2) None Some o(1) by (intro flow_ok_seq [OF e1(2)]) simp_all
      moreover have "trace ws' = trace ws @ (e1 @ e2)" using e1(1) e2(1) o(2) by simp
      ultimately show ?thesis by blast
    next
      case pNone: None
      obtain r3 ws3 where x: "ExecFunction ctl (m_Exit suite) ws2 = (r3, ws3)"
        by (cases "ExecFunction ctl (m_Exit suite) ws2")
      from ExecFunction_flow [OF x] obtain e3 where
        e3: "trace ws3 = trace ws2 @ e3" "flow_ok e3 (r3 = Some False)" by blast
      have o: "ws' = ws3" "\<not> ok \<longleftrightarrow> r3 = Some False"
        using assms i None ts pNone x by (auto simp: Suite_Run_def split: option.splits)
      have "flow_ok (e2 @ e3) (\<not> ok)"
        using e3(2) pNone o(2) by (intro flow_ok_seq [OF e2(2)]) simp_all
      then have "flow_ok (e1 @ (e2 @ e3)) (\<not> ok)"
        using None by (intro flow_ok_seq [OF e1(2)]) simp_all
      moreover have "trace ws' = trace ws @ (e1 @ (e2 @ e3))"
        using e1(1) e2(1) e3(1) o(1) by simp
      ultimately show ?thesis by blast
    qed
  qed
qed

text \<open>
  \<open>CheckDependencies\<close>: the answers to failed dependencies, and whether the check
  ended the whole run.
\<close>

lemma call_OnDependencyFail_events:
  "call_OnDependencyFail ctl s f r ws = (a, ws') \<Longrightarrow>
     trace ws' = trace ws @ [EvDependencyFail s f a]"
  by (auto simp: call_OnDependencyFail_def split: prod.splits)

lemma CheckDependencies_loop_flow:
  "CheckDependencies_loop ctl s deps res rc m ws = Inr (chk, m1, ws1) \<Longrightarrow>
     \<exists>evs. trace ws1 = trace ws @ evs \<and> flow_ok evs (chk = Some False)"
proof (induction deps arbitrary: m ws)
  case Nil
  then show ?case by simp
next
  case (Cons dep deps)
  obtain suiteID m' where mi: "map_index m dep = (suiteID, m')"
    by (cases "map_index m dep")
  let ?sr = "m_SuiteResults res ! (rc ! suiteID)"
  from Cons.prems mi have b: "suiteID < length rc" "rc ! suiteID < length (m_SuiteResults res)"
    by (auto split: if_splits)
  show ?case
  proof (cases "m_TotalResult ?sr \<noteq> Success")
    case False
    then have "CheckDependencies_loop ctl s deps res rc m' ws = Inr (chk, m1, ws1)"
      using Cons.prems mi b by (simp add: Let_def)
    from Cons.IH [OF this] show ?thesis .
  next
    case True
    obtain a wsa where c: "call_OnDependencyFail ctl s (m_Suite ?sr) ?sr ws = (a, wsa)"
      by (cases "call_OnDependencyFail ctl s (m_Suite ?sr) ?sr ws")
    note t = call_OnDependencyFail_events [OF c]
    show ?thesis
    proof (cases "a = Ignore")
      case ig: True
      then have "CheckDependencies_loop ctl s deps res rc m' wsa = Inr (chk, m1, ws1)"
        using Cons.prems mi b True c by (simp add: Let_def)
      from Cons.IH [OF this] obtain evs where
        r: "trace ws1 = trace wsa @ evs" "flow_ok evs (chk = Some False)" by blast
      have "flow_ok (EvDependencyFail s (m_Suite ?sr) a # evs) (chk = Some False)"
        using ig r(2) by (intro flow_ok_Cons_plain) simp_all
      moreover have "trace ws1 = trace ws @ (EvDependencyFail s (m_Suite ?sr) a # evs)"
        using t r(1) by simp
      ultimately show ?thesis by blast
    next
      case ni: False
      then have o: "ws1 = wsa" "chk = Some (a = AbortCurrent)"
        using Cons.prems mi b True c by (auto simp: Let_def split: if_splits)
      have "flow_ok [EvDependencyFail s (m_Suite ?sr) a] (chk = Some False)"
        using ni o(2) by (cases a) (simp_all add: flow_ok_single)
      then show ?thesis using t o(1) by blast
    qed
  qed
qed

text \<open>
  One pass through the loop of \<open>RunSuites\<close>: the suite begins, the check and the run
  of the suite follow, the suite ends; and the loop goes on unless one of them ended
  the whole run.
\<close>

lemma RunSuites_step_flow:
  assumes "RunSuites_step env ctl s st = Some (Inr (p, st'))"
  shows "\<exists>evs. trace (r_world st') = trace (r_world st) @ EvSuiteBegin s # evs @ [EvSuiteEnd s]
           \<and> flow_ok evs (\<not> p)"
proof -
  from assms obtain chk m1 ws1 sr ws2 suiteID m2 where
    chk: "CheckDependencies_loop ctl s (m_Dependencies (m_Suites env ! s)) (r_result st)
        (r_connector st) (r_map st) (call_OnSuiteBegin ctl s (r_world st)) = Inr (chk, m1, ws1)"
    and alt: "(chk = None \<and> Suite_Run ctl s (m_Suites env ! s) (SuiteResult_ctor s) ws1 = Some (p, sr, ws2)) \<or>
     (chk = Some p \<and> sr = SetTotalResult Unknown (SuiteResult_ctor s) \<and> ws2 = ws1)"
    and st': "st' = \<lparr>r_map = m2, r_result = EnvironmentResult_AddResult sr (r_result st),
        r_connector = (r_connector st)[suiteID := length (m_SuiteResults (r_result st))],
        r_world = call_OnSuiteEnd ctl sr ws2\<rparr>"
    by (rule RunSuites_step_elim)
  from CheckDependencies_loop_flow [OF chk] obtain e1 where
    e1: "trace ws1 = trace (r_world st) @ EvSuiteBegin s # e1" "flow_ok e1 (chk = Some False)"
    by (auto simp: call_OnSuiteBegin_def)
  have "\<exists>e2. trace ws2 = trace ws1 @ e2 \<and> flow_ok (e1 @ e2) (\<not> p) \<and> m_Suite sr = s"
    using alt
  proof
    assume a: "chk = None \<and> Suite_Run ctl s (m_Suites env ! s) (SuiteResult_ctor s) ws1 = Some (p, sr, ws2)"
    then have run: "Suite_Run ctl s (m_Suites env ! s) (SuiteResult_ctor s) ws1 = Some (p, sr, ws2)"
      by simp
    from Suite_Run_flow [OF run] obtain e2 where
      e2: "trace ws2 = trace ws1 @ e2" "flow_ok e2 (\<not> p)" by blast
    have "flow_ok (e1 @ e2) (\<not> p)"
      using a e2(2) by (intro flow_ok_seq [OF e1(2)]) simp_all
    moreover have "m_Suite sr = s"
      using Suite_Run_suite [OF run] by (simp add: SuiteResult_ctor_def)
    ultimately show ?thesis using e2(1) by blast
  next
    assume a: "chk = Some p \<and> sr = SetTotalResult Unknown (SuiteResult_ctor s) \<and> ws2 = ws1"
    then have "flow_ok (e1 @ []) (\<not> p)" using e1(2) by auto
    moreover have "m_Suite sr = s"
      using a by (simp add: SuiteResult_ctor_def SetTotalResult_def)
    ultimately show ?thesis using a by blast
  qed
  then obtain e2 where
    e2: "trace ws2 = trace ws1 @ e2" "flow_ok (e1 @ e2) (\<not> p)" "m_Suite sr = s" by blast
  have "trace (r_world st') = trace (r_world st) @ EvSuiteBegin s # (e1 @ e2) @ [EvSuiteEnd s]"
    using st' e1(1) e2(1) e2(3) by (simp add: call_OnSuiteEnd_def)
  then show ?thesis using e2(2) by blast
qed

lemma run_ok_Nil: "run_ok [] True []"
  by (simp add: run_ok_def)

lemma run_ok_stop:
  assumes "flow_ok evs True"
  shows "run_ok (EvSuiteBegin s # evs @ [EvSuiteEnd s]) False (s # suites)"
proof -
  have ab: "post = [EvSuiteEnd s]"
    if "EvSuiteBegin s # evs @ [EvSuiteEnd s] = pre @ e # post" "is_Abort e" for pre e post
  proof -
    from that obtain pre' where p: "pre = EvSuiteBegin s # pre'" "evs @ [EvSuiteEnd s] = pre' @ e # post"
      by (cases pre) auto
    from p(2) that(2) obtain post' where "evs = pre' @ e # post'" "post = post' @ [EvSuiteEnd s]"
      by (cases post rule: rev_cases) auto
    moreover from this assms that(2) have "post' = []"
      unfolding flow_ok_def by blast
    ultimately show ?thesis by simp
  qed
  have "\<not> list_all harmless evs" using assms by (auto simp: flow_ok_def)
  then show ?thesis using ab by (auto simp: run_ok_def)
qed

lemma run_ok_go:
  assumes f: "flow_ok evs False" and r: "run_ok rest b suites"
  shows "run_ok ((EvSuiteBegin s # evs @ [EvSuiteEnd s]) @ rest) b (s # suites)"
proof -
  have noab: "\<not> is_Abort e" if "e \<in> set evs" for e
  proof
    assume a: "is_Abort e"
    from that obtain pre post where "evs = pre @ e # post" by (auto simp: in_set_conv_decomp)
    with f a show False unfolding flow_ok_def by blast
  qed
  have ab: "\<not> b \<and> (\<exists>s'. post = [EvSuiteEnd s'])"
    if eq: "(EvSuiteBegin s # evs @ [EvSuiteEnd s]) @ rest = pre @ e # post" and a: "is_Abort e"
    for pre e post
  proof -
    have "e \<notin> set (EvSuiteBegin s # evs @ [EvSuiteEnd s])"
      using a noab by auto
    moreover from eq have "(EvSuiteBegin s # evs @ [EvSuiteEnd s]) @ rest = pre @ e # post" .
    ultimately obtain pre' where "rest = pre' @ e # post"
      by (auto simp: append_eq_append_conv2 append_eq_Cons_conv Cons_eq_append_conv)
    with r a show ?thesis unfolding run_ok_def by blast
  qed
  have nb: "filter is_EvSuiteBegin evs = []"
    using f by (auto simp: flow_ok_def list_ex_iff filter_empty_conv)
  have calm: "b \<and> filter is_EvSuiteBegin ((EvSuiteBegin s # evs @ [EvSuiteEnd s]) @ rest)
        = map EvSuiteBegin (s # suites)"
    if "list_all harmless ((EvSuiteBegin s # evs @ [EvSuiteEnd s]) @ rest)"
  proof -
    from that have "list_all harmless rest" by simp
    with r have "b" "filter is_EvSuiteBegin rest = map EvSuiteBegin suites"
      by (auto simp: run_ok_def)
    then show ?thesis using nb by simp
  qed
  show ?thesis unfolding run_ok_def using ab calm by blast
qed

text \<open>
  The scheduler of the newer revision: once the policy answers \<open>Abort\<close>, the suite in
  which it answered ends and no further suite is started; \<open>Ignore\<close>, \<open>Procceed\<close> and
  \<open>AbortCurrent\<close> alone let it go on through every suite of the order.
\<close>

lemma RunSuites_loop_flow:
  "RunSuites_loop env ctl suites st = Some (Inr (b, st')) \<Longrightarrow>
     \<exists>evs. trace (r_world st') = trace (r_world st) @ evs \<and> run_ok evs b suites"
proof (induction suites arbitrary: st)
  case Nil
  then show ?case by (auto simp: run_ok_Nil)
next
  case (Cons s suites)
  from Cons.prems obtain p st1 where step: "RunSuites_step env ctl s st = Some (Inr (p, st1))"
    by (auto split: option.splits sum.splits)
  from RunSuites_step_flow [OF step] obtain evs where
    e: "trace (r_world st1) = trace (r_world st) @ EvSuiteBegin s # evs @ [EvSuiteEnd s]"
       "flow_ok evs (\<not> p)" by blast
  show ?case
  proof (cases p)
    case False
    then have "b = False" "st' = st1" using Cons.prems step by simp_all
    moreover have "run_ok (EvSuiteBegin s # evs @ [EvSuiteEnd s]) False (s # suites)"
      using e(2) False by (intro run_ok_stop) simp
    ultimately show ?thesis using e(1) by blast
  next
    case True
    then have "RunSuites_loop env ctl suites st1 = Some (Inr (b, st'))"
      using Cons.prems step by simp
    from Cons.IH [OF this] obtain rest where
      r: "trace (r_world st') = trace (r_world st1) @ rest" "run_ok rest b suites" by blast
    have "run_ok ((EvSuiteBegin s # evs @ [EvSuiteEnd s]) @ rest) b (s # suites)"
      using e(2) True r(2) by (intro run_ok_go) simp_all
    moreover have "trace (r_world st') =
        trace (r_world st) @ ((EvSuiteBegin s # evs @ [EvSuiteEnd s]) @ rest)"
      using e(1) r(1) by simp
    ultimately show ?thesis by blast
  qed
qed


end
